theory Spec2Isabelle
  imports
    Main
    "HOL-Library.Monad_Syntax"
    "HOL-Library.Sublist"
    "HOL-Library.Char_ord"
    "HOL-Library.List_Lexorder"
begin

section \<open>The Datalog model\<close>

record DLTerm =
  Value :: string
  IsVariable :: bool

record DLAtom =
  Predicate :: string
  Terms :: "DLTerm list"

record DLRule =
  Head :: DLAtom
  Body :: "DLAtom list"

record DatalogProgram =
  Facts :: "DLAtom list"
  Rules :: "DLRule list"

definition HasPrefix :: "string \<Rightarrow> string \<Rightarrow> bool" where
  "HasPrefix s pre = (take (length pre) s = pre)"

text \<open>
  \<^verbatim>\<open>for _, r := range s\<close> reads the string as UTF-8: a well-formed sequence of
  one to four bytes is one rune, and any other byte is the rune \<open>U+FFFD\<close> on its own.
  \<open>decodeRune\<close> is one step of that reading (the rune and the bytes it took),
  \<open>utf8Runes\<close> the whole string. Runes are natural numbers.
\<close>

definition RuneError :: nat where
  "RuneError = 0xFFFD"

definition decodeRune :: "string \<Rightarrow> nat \<times> nat" where
  "decodeRune s =
     (let p0 = (of_char (s ! 0) :: nat) in
      if p0 < 0x80 then (p0, 1)
      else if p0 < 0xC2 \<or> 0xF4 < p0 then (RuneError, 1)
      else
        (let sz = (if p0 < 0xE0 then 2 else if p0 < 0xF0 then 3 else 4 :: nat);
             lo = (if p0 = 0xE0 then 0xA0 else if p0 = 0xF0 then 0x90 else 0x80 :: nat);
             hi = (if p0 = 0xED then 0x9F else if p0 = 0xF4 then 0x8F else 0xBF :: nat)
         in if length s < sz then (RuneError, 1)
            else
              (let b1 = (of_char (s ! 1) :: nat) in
               if b1 < lo \<or> hi < b1 then (RuneError, 1)
               else if sz \<le> 2 then ((p0 mod 32) * 64 + b1 mod 64, 2)
               else
                 (let b2 = (of_char (s ! 2) :: nat) in
                  if b2 < 0x80 \<or> 0xBF < b2 then (RuneError, 1)
                  else if sz \<le> 3 then
                    ((p0 mod 16) * 4096 + (b1 mod 64) * 64 + b2 mod 64, 3)
                  else
                    (let b3 = (of_char (s ! 3) :: nat) in
                     if b3 < 0x80 \<or> 0xBF < b3 then (RuneError, 1)
                     else
                       ((p0 mod 8) * 262144 + (b1 mod 64) * 4096 + (b2 mod 64) * 64
                          + b3 mod 64, 4))))))"

lemma decodeRune_size: "0 < snd (decodeRune s)"
  by (simp add: decodeRune_def Let_def)

function utf8Runes :: "string \<Rightarrow> nat list" where
  "utf8Runes s =
     (if s = [] then []
      else (case decodeRune s of (r, width) \<Rightarrow> r # utf8Runes (drop width s)))"
  by pat_completeness auto
termination
proof (relation "measure length", goal_cases)
  case 1
  then show ?case by simp
next
  case (2 s r width)
  have "0 < snd (decodeRune s)" by (rule decodeRune_size)
  then have "0 < width" using 2 by (metis snd_conv)
  then show ?case using 2 by simp
qed

declare utf8Runes.simps [simp del]

text \<open>
  \<^verbatim>\<open>unicode.IsLetter\<close>, \<^verbatim>\<open>unicode.IsUpper\<close> and \<^verbatim>\<open>unicode.IsDigit\<close> are
  tables of Go's library, over all of Unicode. They are parameters here.
\<close>

record unicode =
  IsLetter :: "nat \<Rightarrow> bool"
  IsUpper :: "nat \<Rightarrow> bool"
  IsDigit :: "nat \<Rightarrow> bool"

text \<open>
  The loop of \<open>isVariable\<close> over the runes still to read; \<open>hasLetter\<close> is the flag
  so far, and \<open>allUpper\<close> is still true (the loop leaves when it turns false).
\<close>

fun scanRunes :: "unicode \<Rightarrow> nat list \<Rightarrow> bool \<Rightarrow> bool" where
  "scanRunes u [] hasLetter = hasLetter"
| "scanRunes u (r # rs) hasLetter =
     (if IsLetter u r then (if \<not> IsUpper u r then False else scanRunes u rs True)
      else if \<not> IsDigit u r \<and> r \<noteq> of_char CHR ''_'' then False
      else scanRunes u rs hasLetter)"

definition isVariable :: "unicode \<Rightarrow> string \<Rightarrow> bool" where
  "isVariable u s =
     (if length s = 0 then False
      else if length s = 1 \<and> CHR ''A'' \<le> s ! 0 \<and> s ! 0 \<le> CHR ''Z'' then True
      else if HasPrefix s ''?'' then True
      else scanRunes u (utf8Runes s) False)"

text \<open>
  The inner loop of \<open>EvaluateQuery\<close>: the query's terms from some index on, with the
  fact's terms from the same index. \<^verbatim>\<open>f.Terms[i]\<close> panics past the end of the
  fact's terms; that is \<open>None\<close>.
\<close>

fun matchTerms :: "DLTerm list \<Rightarrow> DLTerm list \<Rightarrow> bool option" where
  "matchTerms [] fts = Some True"
| "matchTerms (qt # qts) [] = None"
| "matchTerms (qt # qts) (ft # fts) =
     (if \<not> IsVariable qt \<and> Value qt \<noteq> Value ft then Some False else matchTerms qts fts)"

fun EvaluateQuery :: "DatalogProgram \<Rightarrow> DLAtom \<Rightarrow> DLAtom list \<Rightarrow> bool option" where
  "EvaluateQuery p query [] = Some False"
| "EvaluateQuery p query (f # derivedFacts) =
     (if Predicate f \<noteq> Predicate query \<or> length (Terms f) \<noteq> length (Terms query)
      then EvaluateQuery p query derivedFacts
      else
        (case matchTerms (Terms query) (Terms f) of
           None \<Rightarrow> None
         | Some True \<Rightarrow> Some True
         | Some False \<Rightarrow> EvaluateQuery p query derivedFacts))"

subsection \<open>Variable recognition\<close>

lemma scanRunes_iff:
  "scanRunes u rs h \<longleftrightarrow>
     (h \<or> (\<exists>r\<in>set rs. IsLetter u r)) \<and>
     (\<forall>r\<in>set rs. if IsLetter u r then IsUpper u r else IsDigit u r \<or> r = of_char CHR ''_'')"
  by (induction rs arbitrary: h) auto

text \<open>
  C8. A term is a variable exactly when it is one uppercase ASCII letter, or begins with
  \<open>?\<close>, or has a letter among its runes with every letter uppercase and every other
  rune a digit or the underscore.
\<close>

theorem isVariable_iff:
  "isVariable u s \<longleftrightarrow>
     (length s = 1 \<and> CHR ''A'' \<le> s ! 0 \<and> s ! 0 \<le> CHR ''Z'') \<or>
     HasPrefix s ''?'' \<or>
     ((\<exists>r\<in>set (utf8Runes s). IsLetter u r) \<and>
      (\<forall>r\<in>set (utf8Runes s).
          if IsLetter u r then IsUpper u r else IsDigit u r \<or> r = of_char CHR ''_''))"
proof (cases "s = []")
  case True
  then show ?thesis by (simp add: isVariable_def HasPrefix_def utf8Runes.simps)
next
  case False
  then show ?thesis by (auto simp: isVariable_def scanRunes_iff)
qed

definition asciiTables :: unicode where
  "asciiTables =
     \<lparr>IsLetter = (\<lambda>r. (65 \<le> r \<and> r \<le> 90) \<or> (97 \<le> r \<and> r \<le> 122)),
      IsUpper = (\<lambda>r. 65 \<le> r \<and> r \<le> 90),
      IsDigit = (\<lambda>r. 48 \<le> r \<and> r \<le> 57)\<rparr>"

lemma runes_VAR_X: "utf8Runes ''VAR_X'' = [86, 65, 82, 95, 88]"
  by (simp add: utf8Runes.simps decodeRune_def)

lemma runes_x1: "utf8Runes ''x1'' = [120, 49]"
  by (simp add: utf8Runes.simps decodeRune_def)

theorem isVariable_iff_witness:
  "isVariable asciiTables ''VAR_X'' \<and> \<not> isVariable asciiTables ''x1'' \<and>
   isVariable asciiTables ''X'' \<and> isVariable asciiTables ''?x''"
  using isVariable_iff[of asciiTables "''VAR_X''"] isVariable_iff[of asciiTables "''x1''"]
        isVariable_iff[of asciiTables "''X''"] isVariable_iff[of asciiTables "''?x''"]
  by (simp add: runes_VAR_X runes_x1 asciiTables_def HasPrefix_def)

subsection \<open>Queries\<close>

definition agrees :: "DLAtom \<Rightarrow> DLAtom \<Rightarrow> bool" where
  "agrees query f =
     (Predicate f = Predicate query \<and> length (Terms f) = length (Terms query) \<and>
      (\<forall>i < length (Terms query).
          \<not> IsVariable (Terms query ! i) \<longrightarrow> Value (Terms query ! i) = Value (Terms f ! i)))"

lemma matchTerms_iff:
  "length fts = length qts \<Longrightarrow>
   matchTerms qts fts =
     Some (\<forall>i < length qts. \<not> IsVariable (qts ! i) \<longrightarrow> Value (qts ! i) = Value (fts ! i))"
proof (induction qts fts rule: matchTerms.induct)
  case (1 fts)
  then show ?case by simp
next
  case (2 qt qts)
  then show ?case by simp
next
  case (3 qt qts ft fts)
  then show ?case by (auto simp: All_less_Suc2)
qed

text \<open>
  C7. \<open>EvaluateQuery\<close> returns (it does not panic), and it returns true exactly when a
  derived fact has the query's predicate and arity and agrees with the query wherever
  the query has a constant. When no derived fact has the query's predicate the answer is
  false.
\<close>

theorem EvaluateQuery_iff:
  "EvaluateQuery p query derivedFacts = Some (\<exists>f\<in>set derivedFacts. agrees query f) \<and>
   ((\<forall>f\<in>set derivedFacts. Predicate f \<noteq> Predicate query) \<longrightarrow>
      EvaluateQuery p query derivedFacts = Some False)"
proof -
  have main: "EvaluateQuery p query derivedFacts = Some (\<exists>f\<in>set derivedFacts. agrees query f)"
  proof (induction derivedFacts)
    case Nil
    then show ?case by simp
  next
    case (Cons f fs)
    show ?case
    proof (cases "Predicate f \<noteq> Predicate query \<or> length (Terms f) \<noteq> length (Terms query)")
      case True
      then have "\<not> agrees query f" by (auto simp: agrees_def)
      then show ?thesis using True Cons by simp
    next
      case False
      then have m: "matchTerms (Terms query) (Terms f) = Some (agrees query f)"
        using matchTerms_iff[of "Terms f" "Terms query"] by (simp add: agrees_def)
      show ?thesis using False Cons m by (cases "agrees query f") auto
    qed
  qed
  moreover have "(\<forall>f\<in>set derivedFacts. Predicate f \<noteq> Predicate query) \<longrightarrow>
      \<not> (\<exists>f\<in>set derivedFacts. agrees query f)"
    by (auto simp: agrees_def)
  ultimately show ?thesis by simp
qed

theorem EvaluateQuery_iff_witness:
  "EvaluateQuery \<lparr>Facts = [], Rules = []\<rparr>
     \<lparr>Predicate = ''Ancestor'',
        Terms = [\<lparr>Value = ''john'', IsVariable = False\<rparr>, \<lparr>Value = ''X'', IsVariable = True\<rparr>]\<rparr>
     [\<lparr>Predicate = ''Parent'',
         Terms = [\<lparr>Value = ''john'', IsVariable = False\<rparr>, \<lparr>Value = ''mary'', IsVariable = False\<rparr>]\<rparr>,
      \<lparr>Predicate = ''Ancestor'',
         Terms = [\<lparr>Value = ''john'', IsVariable = False\<rparr>, \<lparr>Value = ''mary'', IsVariable = False\<rparr>]\<rparr>]
     = Some True \<and>
   EvaluateQuery \<lparr>Facts = [], Rules = []\<rparr>
     \<lparr>Predicate = ''Sibling'',
        Terms = [\<lparr>Value = ''john'', IsVariable = False\<rparr>, \<lparr>Value = ''X'', IsVariable = True\<rparr>]\<rparr>
     [\<lparr>Predicate = ''Parent'',
         Terms = [\<lparr>Value = ''john'', IsVariable = False\<rparr>, \<lparr>Value = ''mary'', IsVariable = False\<rparr>]\<rparr>,
      \<lparr>Predicate = ''Ancestor'',
         Terms = [\<lparr>Value = ''john'', IsVariable = False\<rparr>, \<lparr>Value = ''mary'', IsVariable = False\<rparr>]\<rparr>]
     = Some False"
  using EvaluateQuery_iff[of "\<lparr>Facts = [], Rules = []\<rparr>"
     "\<lparr>Predicate = ''Ancestor'',
        Terms = [\<lparr>Value = ''john'', IsVariable = False\<rparr>, \<lparr>Value = ''X'', IsVariable = True\<rparr>]\<rparr>"
     "[\<lparr>Predicate = ''Parent'',
         Terms = [\<lparr>Value = ''john'', IsVariable = False\<rparr>, \<lparr>Value = ''mary'', IsVariable = False\<rparr>]\<rparr>,
      \<lparr>Predicate = ''Ancestor'',
         Terms = [\<lparr>Value = ''john'', IsVariable = False\<rparr>, \<lparr>Value = ''mary'', IsVariable = False\<rparr>]\<rparr>]"]
    EvaluateQuery_iff[of "\<lparr>Facts = [], Rules = []\<rparr>"
     "\<lparr>Predicate = ''Sibling'',
        Terms = [\<lparr>Value = ''john'', IsVariable = False\<rparr>, \<lparr>Value = ''X'', IsVariable = True\<rparr>]\<rparr>"
     "[\<lparr>Predicate = ''Parent'',
         Terms = [\<lparr>Value = ''john'', IsVariable = False\<rparr>, \<lparr>Value = ''mary'', IsVariable = False\<rparr>]\<rparr>,
      \<lparr>Predicate = ''Ancestor'',
         Terms = [\<lparr>Value = ''john'', IsVariable = False\<rparr>, \<lparr>Value = ''mary'', IsVariable = False\<rparr>]\<rparr>]"]
  by (simp add: agrees_def All_less_Suc)

section \<open>The triple store\<close>

text \<open>
  A Go \<^verbatim>\<open>string\<close> is a sequence of bytes; so is an Isabelle \<^typ>\<open>string\<close>.
  Slice indices and counters are Go \<^verbatim>\<open>int\<close> (64 bits); they count elements of
  slices held in memory and never come near the bound, so they are natural numbers here.
\<close>

record Triple =
  Subject :: string
  Predicate :: string
  Object :: string

text \<open>
  The maps of the store are read with Go's zero-value rule: a missing key of
  \<^verbatim>\<open>map[string]bool\<close> reads \<open>false\<close>, a missing key of \<^verbatim>\<open>map[string][]int\<close>
  reads the empty slice. A total function with that default is exactly this reading.
\<close>

record TripleStore =
  triples :: "string \<Rightarrow> bool"
  tripleList :: "Triple list"
  bySubject :: "string \<Rightarrow> nat list"
  byPredicate :: "string \<Rightarrow> nat list"
  byObject :: "string \<Rightarrow> nat list"

definition NewTripleStore :: TripleStore where
  "NewTripleStore =
     \<lparr>triples = (\<lambda>_. False), tripleList = [],
      bySubject = (\<lambda>_. []), byPredicate = (\<lambda>_. []), byObject = (\<lambda>_. [])\<rparr>"

definition tripleKey :: "Triple \<Rightarrow> string" where
  "tripleKey t = Subject t @ ''|'' @ Predicate t @ ''|'' @ Object t"

text \<open>\<open>Add\<close> returns whether the triple was new, and the store after the call.\<close>

definition Add :: "TripleStore \<Rightarrow> Triple \<Rightarrow> bool \<times> TripleStore" where
  "Add ts t =
     (let key = tripleKey t in
      if triples ts key then (False, ts)
      else
        (let idx = length (tripleList ts) in
         (True,
          ts\<lparr>triples := (triples ts)(key := True),
             tripleList := tripleList ts @ [t],
             bySubject := (bySubject ts)(Subject t := bySubject ts (Subject t) @ [idx]),
             byPredicate := (byPredicate ts)(Predicate t := byPredicate ts (Predicate t) @ [idx]),
             byObject := (byObject ts)(Object t := byObject ts (Object t) @ [idx])\<rparr>)))"

definition Contains :: "TripleStore \<Rightarrow> Triple \<Rightarrow> bool" where
  "Contains ts t = triples ts (tripleKey t)"

text \<open>
  \<^verbatim>\<open>ts.tripleList[idx]\<close> panics when \<open>idx\<close> is out of range. The lookups return
  \<open>None\<close> for that panic.
\<close>

definition index :: "'a list \<Rightarrow> nat \<Rightarrow> 'a option" where
  "index xs i = (if i < length xs then Some (xs ! i) else None)"

primrec lookupEach :: "Triple list \<Rightarrow> nat list \<Rightarrow> Triple list option" where
  "lookupEach l [] = Some []"
| "lookupEach l (idx # rest) =
     (case index l idx of
        None \<Rightarrow> None
      | Some t \<Rightarrow> (case lookupEach l rest of None \<Rightarrow> None | Some r \<Rightarrow> Some (t # r)))"

definition FindBySubject :: "TripleStore \<Rightarrow> string \<Rightarrow> Triple list option" where
  "FindBySubject ts subject = lookupEach (tripleList ts) (bySubject ts subject)"

definition FindByPredicate :: "TripleStore \<Rightarrow> string \<Rightarrow> Triple list option" where
  "FindByPredicate ts predicate = lookupEach (tripleList ts) (byPredicate ts predicate)"

definition FindByObject :: "TripleStore \<Rightarrow> string \<Rightarrow> Triple list option" where
  "FindByObject ts object = lookupEach (tripleList ts) (byObject ts object)"

definition FindBySubjectPredicate ::
  "TripleStore \<Rightarrow> string \<Rightarrow> string \<Rightarrow> Triple list option" where
  "FindBySubjectPredicate ts subject predicate =
     map_option (filter (\<lambda>t. Predicate t = predicate))
       (lookupEach (tripleList ts) (bySubject ts subject))"

definition FindByPredicateObject ::
  "TripleStore \<Rightarrow> string \<Rightarrow> string \<Rightarrow> Triple list option" where
  "FindByPredicateObject ts predicate object =
     map_option (filter (\<lambda>t. Object t = object))
       (lookupEach (tripleList ts) (byPredicate ts predicate))"

definition All :: "TripleStore \<Rightarrow> Triple list" where
  "All ts = tripleList ts"

definition Size :: "TripleStore \<Rightarrow> nat" where
  "Size ts = length (tripleList ts)"

section \<open>The rules\<close>

definition RDFType :: string where
  "RDFType = ''http://www.w3.org/1999/02/22-rdf-syntax-ns#type''"
definition RDFSSubClassOf :: string where
  "RDFSSubClassOf = ''http://www.w3.org/2000/01/rdf-schema#subClassOf''"
definition RDFSSubPropertyOf :: string where
  "RDFSSubPropertyOf = ''http://www.w3.org/2000/01/rdf-schema#subPropertyOf''"
definition RDFSDomain :: string where
  "RDFSDomain = ''http://www.w3.org/2000/01/rdf-schema#domain''"
definition RDFSRange :: string where
  "RDFSRange = ''http://www.w3.org/2000/01/rdf-schema#range''"
definition OWLEquivalentClass :: string where
  "OWLEquivalentClass = ''http://www.w3.org/2002/07/owl#equivalentClass''"
definition OWLSameAs :: string where
  "OWLSameAs = ''http://www.w3.org/2002/07/owl#sameAs''"
definition OWLInverseOf :: string where
  "OWLInverseOf = ''http://www.w3.org/2002/07/owl#inverseOf''"
definition OWLTransitiveProperty :: string where
  "OWLTransitiveProperty = ''http://www.w3.org/2002/07/owl#TransitiveProperty''"
definition OWLSymmetricProperty :: string where
  "OWLSymmetricProperty = ''http://www.w3.org/2002/07/owl#SymmetricProperty''"

text \<open>
  A \<^verbatim>\<open>for ... range\<close> loop whose body appends to the slice \<open>inferred\<close>: the
  contributions of the iterations in order, or the panic of the first one that panics.
\<close>

primrec forEach :: "'a list \<Rightarrow> ('a \<Rightarrow> 'b list option) \<Rightarrow> 'b list option" where
  "forEach [] body = Some []"
| "forEach (x # xs) body =
     (case body x of
        None \<Rightarrow> None
      | Some ys \<Rightarrow> (case forEach xs body of None \<Rightarrow> None | Some zs \<Rightarrow> Some (ys @ zs)))"

definition SubClassTransitivity_Apply :: "TripleStore \<Rightarrow> Triple list option" where
  "SubClassTransitivity_Apply store = do {
     subClassTriples \<leftarrow> FindByPredicate store RDFSSubClassOf;
     forEach subClassTriples (\<lambda>t1. do {
       t2s \<leftarrow> FindBySubjectPredicate store (Object t1) RDFSSubClassOf;
       forEach t2s (\<lambda>t2.
         let a = Subject t1; c = Object t2;
             newTriple = \<lparr>Subject = a, Predicate = RDFSSubClassOf, Object = c\<rparr>
         in Some (if \<not> Contains store newTriple \<and> a \<noteq> c then [newTriple] else []))
     })
   }"

definition TypeInheritance_Apply :: "TripleStore \<Rightarrow> Triple list option" where
  "TypeInheritance_Apply store = do {
     typeTriples \<leftarrow> FindByPredicate store RDFType;
     forEach typeTriples (\<lambda>t. do {
       scs \<leftarrow> FindBySubjectPredicate store (Object t) RDFSSubClassOf;
       forEach scs (\<lambda>sc.
         let newTriple = \<lparr>Subject = Subject t, Predicate = RDFType, Object = Object sc\<rparr>
         in Some (if \<not> Contains store newTriple then [newTriple] else []))
     })
   }"

definition DomainInference_Apply :: "TripleStore \<Rightarrow> Triple list option" where
  "DomainInference_Apply store = do {
     domainTriples \<leftarrow> FindByPredicate store RDFSDomain;
     forEach domainTriples (\<lambda>dt. do {
       ts \<leftarrow> FindByPredicate store (Subject dt);
       forEach ts (\<lambda>t.
         let newTriple = \<lparr>Subject = Subject t, Predicate = RDFType, Object = Object dt\<rparr>
         in Some (if \<not> Contains store newTriple then [newTriple] else []))
     })
   }"

definition RangeInference_Apply :: "TripleStore \<Rightarrow> Triple list option" where
  "RangeInference_Apply store = do {
     rangeTriples \<leftarrow> FindByPredicate store RDFSRange;
     forEach rangeTriples (\<lambda>rt. do {
       ts \<leftarrow> FindByPredicate store (Subject rt);
       forEach ts (\<lambda>t.
         let y = Object t in
         if length y > 0 \<and> y ! 0 = CHR 0x22 then Some []
         else
           (let newTriple = \<lparr>Subject = y, Predicate = RDFType, Object = Object rt\<rparr>
            in Some (if \<not> Contains store newTriple then [newTriple] else [])))
     })
   }"

definition SubPropertyTransitivity_Apply :: "TripleStore \<Rightarrow> Triple list option" where
  "SubPropertyTransitivity_Apply store = do {
     subPropTriples \<leftarrow> FindByPredicate store RDFSSubPropertyOf;
     forEach subPropTriples (\<lambda>t1. do {
       t2s \<leftarrow> FindBySubjectPredicate store (Object t1) RDFSSubPropertyOf;
       forEach t2s (\<lambda>t2.
         let p1 = Subject t1; p3 = Object t2;
             newTriple = \<lparr>Subject = p1, Predicate = RDFSSubPropertyOf, Object = p3\<rparr>
         in Some (if \<not> Contains store newTriple \<and> p1 \<noteq> p3 then [newTriple] else []))
     })
   }"

definition SubPropertyInheritance_Apply :: "TripleStore \<Rightarrow> Triple list option" where
  "SubPropertyInheritance_Apply store = do {
     subPropTriples \<leftarrow> FindByPredicate store RDFSSubPropertyOf;
     forEach subPropTriples (\<lambda>sp. do {
       ts \<leftarrow> FindByPredicate store (Subject sp);
       forEach ts (\<lambda>t.
         let newTriple = \<lparr>Subject = Subject t, Predicate = Object sp, Object = Object t\<rparr>
         in Some (if \<not> Contains store newTriple then [newTriple] else []))
     })
   }"

definition EquivalentClassSymmetry_Apply :: "TripleStore \<Rightarrow> Triple list option" where
  "EquivalentClassSymmetry_Apply store = do {
     eqTriples \<leftarrow> FindByPredicate store OWLEquivalentClass;
     forEach eqTriples (\<lambda>t.
       let newTriple = \<lparr>Subject = Object t, Predicate = OWLEquivalentClass, Object = Subject t\<rparr>
       in Some (if \<not> Contains store newTriple then [newTriple] else []))
   }"

definition EquivalentClassTransitivity_Apply :: "TripleStore \<Rightarrow> Triple list option" where
  "EquivalentClassTransitivity_Apply store = do {
     eqTriples \<leftarrow> FindByPredicate store OWLEquivalentClass;
     forEach eqTriples (\<lambda>t1. do {
       t2s \<leftarrow> FindBySubjectPredicate store (Object t1) OWLEquivalentClass;
       forEach t2s (\<lambda>t2.
         let a = Subject t1; c = Object t2;
             newTriple = \<lparr>Subject = a, Predicate = OWLEquivalentClass, Object = c\<rparr>
         in Some (if \<not> Contains store newTriple \<and> a \<noteq> c then [newTriple] else []))
     })
   }"

definition SameAsSymmetry_Apply :: "TripleStore \<Rightarrow> Triple list option" where
  "SameAsSymmetry_Apply store = do {
     sameAsTriples \<leftarrow> FindByPredicate store OWLSameAs;
     forEach sameAsTriples (\<lambda>t.
       let newTriple = \<lparr>Subject = Object t, Predicate = OWLSameAs, Object = Subject t\<rparr>
       in Some (if \<not> Contains store newTriple then [newTriple] else []))
   }"

definition SameAsTransitivity_Apply :: "TripleStore \<Rightarrow> Triple list option" where
  "SameAsTransitivity_Apply store = do {
     sameAsTriples \<leftarrow> FindByPredicate store OWLSameAs;
     forEach sameAsTriples (\<lambda>t1. do {
       t2s \<leftarrow> FindBySubjectPredicate store (Object t1) OWLSameAs;
       forEach t2s (\<lambda>t2.
         let a = Subject t1; c = Object t2;
             newTriple = \<lparr>Subject = a, Predicate = OWLSameAs, Object = c\<rparr>
         in Some (if \<not> Contains store newTriple \<and> a \<noteq> c then [newTriple] else []))
     })
   }"

text \<open>The two inner loops of the inverse rule run one after the other for each declaration.\<close>

definition InversePropertyInference_Apply :: "TripleStore \<Rightarrow> Triple list option" where
  "InversePropertyInference_Apply store = do {
     inverseTriples \<leftarrow> FindByPredicate store OWLInverseOf;
     forEach inverseTriples (\<lambda>inv. do {
       let p1 = Subject inv;
       let p2 = Object inv;
       ts1 \<leftarrow> FindByPredicate store p1;
       first \<leftarrow> forEach ts1 (\<lambda>t.
         let newTriple = \<lparr>Subject = Object t, Predicate = p2, Object = Subject t\<rparr>
         in Some (if \<not> Contains store newTriple then [newTriple] else []));
       ts2 \<leftarrow> FindByPredicate store p2;
       second \<leftarrow> forEach ts2 (\<lambda>t.
         let newTriple = \<lparr>Subject = Object t, Predicate = p1, Object = Subject t\<rparr>
         in Some (if \<not> Contains store newTriple then [newTriple] else []));
       Some (first @ second)
     })
   }"

text \<open>
  The last two rules collect the declared properties as the keys of a Go map and range
  over the map. Go leaves the order of that iteration open; it visits every key once.
  The order is the parameter \<open>ord\<close>: it is given the distinct keys and returns them in
  the order of the visit. \<open>mapOrder_ok\<close> says that \<open>ord\<close> only rearranges.
\<close>

type_synonym mapOrder = "string list \<Rightarrow> string list"

definition mapOrder_ok :: "mapOrder \<Rightarrow> bool" where
  "mapOrder_ok ord = (\<forall>ks. set (ord ks) = set ks \<and> length (ord ks) = length ks)"

definition TransitivePropertyInference_Apply ::
  "mapOrder \<Rightarrow> TripleStore \<Rightarrow> Triple list option" where
  "TransitivePropertyInference_Apply ord store = do {
     decls \<leftarrow> FindByPredicateObject store RDFType OWLTransitiveProperty;
     let transitiveProps = remdups (map Subject decls);
     forEach (ord transitiveProps) (\<lambda>prop. do {
       propTriples \<leftarrow> FindByPredicate store prop;
       forEach propTriples (\<lambda>t1. do {
         t2s \<leftarrow> FindBySubjectPredicate store (Object t1) prop;
         forEach t2s (\<lambda>t2.
           let x = Subject t1; z = Object t2;
               newTriple = \<lparr>Subject = x, Predicate = prop, Object = z\<rparr>
           in Some (if \<not> Contains store newTriple \<and> x \<noteq> z then [newTriple] else []))
       })
     })
   }"

definition SymmetricPropertyInference_Apply ::
  "mapOrder \<Rightarrow> TripleStore \<Rightarrow> Triple list option" where
  "SymmetricPropertyInference_Apply ord store = do {
     decls \<leftarrow> FindByPredicateObject store RDFType OWLSymmetricProperty;
     let symmetricProps = remdups (map Subject decls);
     forEach (ord symmetricProps) (\<lambda>prop. do {
       ts \<leftarrow> FindByPredicate store prop;
       forEach ts (\<lambda>t.
         let newTriple = \<lparr>Subject = Object t, Predicate = prop, Object = Subject t\<rparr>
         in Some (if \<not> Contains store newTriple then [newTriple] else []))
     })
   }"

text \<open>The \<open>Rule\<close> interface has these thirteen implementations.\<close>

datatype Rule =
    SubClassTransitivity
  | TypeInheritance
  | DomainInference
  | RangeInference
  | SubPropertyTransitivity
  | SubPropertyInheritance
  | EquivalentClassSymmetry
  | EquivalentClassTransitivity
  | SameAsSymmetry
  | SameAsTransitivity
  | InversePropertyInference
  | TransitivePropertyInference
  | SymmetricPropertyInference

fun Apply :: "mapOrder \<Rightarrow> Rule \<Rightarrow> TripleStore \<Rightarrow> Triple list option" where
  "Apply ord SubClassTransitivity store = SubClassTransitivity_Apply store"
| "Apply ord TypeInheritance store = TypeInheritance_Apply store"
| "Apply ord DomainInference store = DomainInference_Apply store"
| "Apply ord RangeInference store = RangeInference_Apply store"
| "Apply ord SubPropertyTransitivity store = SubPropertyTransitivity_Apply store"
| "Apply ord SubPropertyInheritance store = SubPropertyInheritance_Apply store"
| "Apply ord EquivalentClassSymmetry store = EquivalentClassSymmetry_Apply store"
| "Apply ord EquivalentClassTransitivity store = EquivalentClassTransitivity_Apply store"
| "Apply ord SameAsSymmetry store = SameAsSymmetry_Apply store"
| "Apply ord SameAsTransitivity store = SameAsTransitivity_Apply store"
| "Apply ord InversePropertyInference store = InversePropertyInference_Apply store"
| "Apply ord TransitivePropertyInference store = TransitivePropertyInference_Apply ord store"
| "Apply ord SymmetricPropertyInference store = SymmetricPropertyInference_Apply ord store"

definition DefaultRules :: "Rule list" where
  "DefaultRules =
     [SubClassTransitivity, TypeInheritance, DomainInference, RangeInference,
      SubPropertyTransitivity, SubPropertyInheritance, EquivalentClassSymmetry,
      EquivalentClassTransitivity, SameAsSymmetry, SameAsTransitivity,
      InversePropertyInference, TransitivePropertyInference, SymmetricPropertyInference]"

section \<open>The reasoner\<close>

text \<open>
  The reasoner owns a store and a rule list. Its parser keeps nothing between calls
  (\<open>Parse\<close> resets every field first), so it is no part of the state.
\<close>

record Reasoner =
  store :: TripleStore
  rules :: "Rule list"

definition NewReasoner :: Reasoner where
  "NewReasoner = \<lparr>store = NewTripleStore, rules = DefaultRules\<rparr>"

definition NewReasonerWithRules :: "Rule list \<Rightarrow> Reasoner" where
  "NewReasonerWithRules rs = \<lparr>store = NewTripleStore, rules = rs\<rparr>"

text \<open>The inner loop of a round: add the proposals one by one, counting the new ones.\<close>

primrec addInferred :: "TripleStore \<Rightarrow> Triple list \<Rightarrow> nat \<Rightarrow> TripleStore \<times> nat" where
  "addInferred ts [] newInThisRound = (ts, newInThisRound)"
| "addInferred ts (t # rest) newInThisRound =
     (case Add ts t of
        (True, ts') \<Rightarrow> addInferred ts' rest (newInThisRound + 1)
      | (False, ts') \<Rightarrow> addInferred ts' rest newInThisRound)"

text \<open>One round: every rule in order, each applied to the store the earlier ones left.\<close>

primrec applyRules ::
  "mapOrder \<Rightarrow> Rule list \<Rightarrow> TripleStore \<Rightarrow> nat \<Rightarrow> (TripleStore \<times> nat) option" where
  "applyRules ord [] ts newInThisRound = Some (ts, newInThisRound)"
| "applyRules ord (rule # rest) ts newInThisRound =
     (case Apply ord rule ts of
        None \<Rightarrow> None
      | Some inferred \<Rightarrow>
          (case addInferred ts inferred newInThisRound of
             (ts', n) \<Rightarrow> applyRules ord rest ts' n))"

text \<open>
  The loop of \<open>RunForwardReasoning\<close>. It has no bound of its own, so it is a partial
  function: \<open>None\<close> stands for a run that does not return (it loops forever or panics).
\<close>

partial_function (option) reasoningLoop ::
  "mapOrder \<Rightarrow> Rule list \<Rightarrow> TripleStore \<Rightarrow> nat \<Rightarrow> (nat \<times> TripleStore) option" where
  "reasoningLoop ord rs ts totalInferred =
     (case applyRules ord rs ts 0 of
        None \<Rightarrow> None
      | Some (ts', newInThisRound) \<Rightarrow>
          if newInThisRound = 0 then Some (totalInferred, ts')
          else reasoningLoop ord rs ts' (totalInferred + newInThisRound))"

definition RunForwardReasoning :: "mapOrder \<Rightarrow> Reasoner \<Rightarrow> (nat \<times> Reasoner) option" where
  "RunForwardReasoning ord r =
     map_option (\<lambda>(n, ts). (n, r\<lparr>store := ts\<rparr>)) (reasoningLoop ord (rules r) (store r) 0)"

section \<open>The Turtle parser\<close>

text \<open>
  The parser's errors. The Go messages also carry the position; no claim is about it.
\<close>

datatype error =
    ExpectedPrefixName
  | ExpectedOpenAngle
  | UnterminatedIRI
  | UnexpectedEndOfInput
  | ExpectedColon

text \<open>
  The parser reads \<open>input\<close> from \<open>pos\<close> on and never moves \<open>pos\<close> back, so the two
  fields are kept as one: \<open>input\<close> is the unread part, Go's \<^verbatim>\<open>p.input[p.pos:]\<close>.
  \<open>prefixes\<close> is read with the two-value form, so it is a partial map.
\<close>

record TurtleParser =
  prefixes :: "string \<rightharpoonup> string"
  base :: string
  input :: string

text \<open>
  The classes of \<^verbatim>\<open>unicode.IsLetter\<close>, \<^verbatim>\<open>unicode.IsDigit\<close> and
  \<^verbatim>\<open>unicode.IsSpace\<close> on \<^verbatim>\<open>rune(b)\<close> for a byte \<open>b\<close>: the code points
  below 256.
\<close>

definition isLetter :: "char \<Rightarrow> bool" where
  "isLetter ch =
     ((CHR ''A'' \<le> ch \<and> ch \<le> CHR ''Z'') \<or> (CHR ''a'' \<le> ch \<and> ch \<le> CHR ''z'') \<or>
      ch = CHR 0xAA \<or> ch = CHR 0xB5 \<or> ch = CHR 0xBA \<or>
      (CHR 0xC0 \<le> ch \<and> ch \<le> CHR 0xD6) \<or> (CHR 0xD8 \<le> ch \<and> ch \<le> CHR 0xF6) \<or>
      CHR 0xF8 \<le> ch)"

definition isDigit :: "char \<Rightarrow> bool" where
  "isDigit ch = (CHR ''0'' \<le> ch \<and> ch \<le> CHR ''9'')"

definition isSpace :: "char \<Rightarrow> bool" where
  "isSpace ch =
     (ch = CHR 0x09 \<or> ch = CHR 0x0A \<or> ch = CHR 0x0B \<or> ch = CHR 0x0C \<or> ch = CHR 0x0D \<or>
      ch = CHR '' '' \<or> ch = CHR 0x85 \<or> ch = CHR 0xA0)"

definition isNameChar :: "char \<Rightarrow> bool" where
  "isNameChar r = (isLetter r \<or> isDigit r \<or> r = CHR ''_'' \<or> r = CHR ''-'' \<or> r = CHR ''.'')"

definition isAlphaNum :: "char \<Rightarrow> bool" where
  "isAlphaNum r = (isLetter r \<or> isDigit r)"

function skipBlank :: "string \<Rightarrow> string" where
  "skipBlank [] = []"
| "skipBlank (ch # cs) =
     (if ch = CHR '' '' \<or> ch = CHR 0x09 \<or> ch = CHR 0x0A \<or> ch = CHR 0x0D then skipBlank cs
      else if ch = CHR ''#'' then skipBlank (dropWhile (\<lambda>c. c \<noteq> CHR 0x0A) cs)
      else ch # cs)"
  by pat_completeness auto
termination
  by (relation "measure length") (auto simp: length_dropWhile_le less_Suc_eq_le)

definition skipWhitespaceAndComments :: "TurtleParser \<Rightarrow> TurtleParser" where
  "skipWhitespaceAndComments p = p\<lparr>input := skipBlank (input p)\<rparr>"

definition lookingAt :: "TurtleParser \<Rightarrow> string \<Rightarrow> bool" where
  "lookingAt p s = (length s \<le> length (input p) \<and> take (length s) (input p) = s)"

text \<open>
  \<^verbatim>\<open>strings.EqualFold\<close> on a slice of as many bytes as the ASCII keyword: a rune
  outside ASCII takes two bytes or more, which leaves the slice short of runes, so the
  two are equal exactly when they agree byte by byte up to the case of ASCII letters.
\<close>

definition toUpperASCII :: "char \<Rightarrow> char" where
  "toUpperASCII ch =
     (if CHR ''a'' \<le> ch \<and> ch \<le> CHR ''z'' then char_of (of_char ch - (32::nat)) else ch)"

definition lookingAtCaseInsensitive :: "TurtleParser \<Rightarrow> string \<Rightarrow> bool" where
  "lookingAtCaseInsensitive p s =
     (length s \<le> length (input p) \<and>
      map toUpperASCII (take (length s) (input p)) = map toUpperASCII s)"

definition advance :: "nat \<Rightarrow> TurtleParser \<Rightarrow> TurtleParser" where
  "advance n p = p\<lparr>input := drop n (input p)\<rparr>"

fun scanPrefixName :: "string \<Rightarrow> string \<times> string" where
  "scanPrefixName [] = ([], [])"
| "scanPrefixName (ch # cs) =
     (if ch = CHR '':'' then ([ch], cs)
      else if isSpace ch then ([], ch # cs)
      else (case scanPrefixName cs of (name, rest) \<Rightarrow> (ch # name, rest)))"

definition parsePrefixName :: "TurtleParser \<Rightarrow> string \<times> TurtleParser" where
  "parsePrefixName p =
     (case scanPrefixName (input p) of (name, rest) \<Rightarrow> (name, p\<lparr>input := rest\<rparr>))"

definition parseIRI :: "TurtleParser \<Rightarrow> (error + string) \<times> TurtleParser" where
  "parseIRI p =
     (let p1 = skipWhitespaceAndComments p in
      case input p1 of
        [] \<Rightarrow> (Inl ExpectedOpenAngle, p1)
      | ch # rest \<Rightarrow>
          if ch \<noteq> CHR ''<'' then (Inl ExpectedOpenAngle, p1)
          else
            (case dropWhile (\<lambda>c. c \<noteq> CHR ''>'') rest of
               [] \<Rightarrow> (Inl UnterminatedIRI, p1\<lparr>input := []\<rparr>)
             | _ # after \<Rightarrow>
                 (Inr (takeWhile (\<lambda>c. c \<noteq> CHR ''>'') rest), p1\<lparr>input := after\<rparr>)))"

definition HasSuffix :: "string \<Rightarrow> string \<Rightarrow> bool" where
  "HasSuffix s suf = (length suf \<le> length s \<and> drop (length s - length suf) s = suf)"

definition TrimPrefix :: "string \<Rightarrow> string \<Rightarrow> string" where
  "TrimPrefix s pre = (if HasPrefix s pre then drop (length pre) s else s)"

definition TrimSuffix :: "string \<Rightarrow> string \<Rightarrow> string" where
  "TrimSuffix s suf = (if HasSuffix s suf then take (length s - length suf) s else s)"

fun Contains_str :: "string \<Rightarrow> string \<Rightarrow> bool" where
  "Contains_str [] sub = (sub = [])"
| "Contains_str (c # cs) sub = (HasPrefix (c # cs) sub \<or> Contains_str cs sub)"

definition parsePrefix :: "TurtleParser \<Rightarrow> error option \<times> TurtleParser" where
  "parsePrefix p =
     (let p1 = (if lookingAt p ''@prefix'' then advance 7 p else advance 6 p);
          p2 = skipWhitespaceAndComments p1
      in case parsePrefixName p2 of
        (prefixName, p3) \<Rightarrow>
          if prefixName = [] then (Some ExpectedPrefixName, p3)
          else
            (case parseIRI (skipWhitespaceAndComments p3) of
               (Inl err, p4) \<Rightarrow> (Some err, p4)
             | (Inr iri, p4) \<Rightarrow>
                 (let p5 = skipWhitespaceAndComments p4;
                      p6 = (if input p5 \<noteq> [] \<and> hd (input p5) = CHR ''.'' then advance 1 p5 else p5);
                      prefix = TrimSuffix prefixName '':''
                  in (None, p6\<lparr>prefixes := (prefixes p6)(prefix \<mapsto> iri)\<rparr>))))"

definition parseBase :: "TurtleParser \<Rightarrow> error option \<times> TurtleParser" where
  "parseBase p =
     (let p1 = (if lookingAt p ''@base'' then advance 5 p else advance 4 p);
          p2 = skipWhitespaceAndComments p1
      in case parseIRI p2 of
        (Inl err, p3) \<Rightarrow> (Some err, p3)
      | (Inr iri, p3) \<Rightarrow>
          (let p4 = skipWhitespaceAndComments p3;
               p5 = (if input p4 \<noteq> [] \<and> hd (input p4) = CHR ''.'' then advance 1 p4 else p4)
           in (None, p5\<lparr>base := iri\<rparr>)))"

definition resolveIRI :: "TurtleParser \<Rightarrow> string \<Rightarrow> string" where
  "resolveIRI p iri =
     (if base p \<noteq> [] \<and> \<not> Contains_str iri ''://'' \<and> \<not> HasPrefix iri ''#''
      then base p @ iri else iri)"

definition parseBlankNode :: "TurtleParser \<Rightarrow> (error + string) \<times> TurtleParser" where
  "parseBlankNode p =
     (let label = takeWhile isNameChar (drop 2 (input p))
      in (Inr (take 2 (input p) @ label),
          p\<lparr>input := dropWhile isNameChar (drop 2 (input p))\<rparr>))"

definition parsePrefixedName :: "TurtleParser \<Rightarrow> (error + string) \<times> TurtleParser" where
  "parsePrefixedName p =
     (let prefix = takeWhile (\<lambda>ch. ch \<noteq> CHR '':'' \<and> isNameChar ch) (input p);
          p1 = p\<lparr>input := dropWhile (\<lambda>ch. ch \<noteq> CHR '':'' \<and> isNameChar ch) (input p)\<rparr>
      in if input p1 = [] \<or> hd (input p1) \<noteq> CHR '':'' then (Inl ExpectedColon, p1)
         else
           (let p2 = advance 1 p1;
                local = takeWhile isNameChar (input p2);
                p3 = p2\<lparr>input := dropWhile isNameChar (input p2)\<rparr>
            in case prefixes p3 prefix of
                 Some b \<Rightarrow> (Inr (b @ local), p3)
               | None \<Rightarrow> (Inr (prefix @ '':'' @ local), p3)))"

text \<open>The body of a triple-quoted literal: the bytes written, and the unread input.\<close>

fun scanLongString :: "string \<Rightarrow> string \<times> string" where
  "scanLongString [] = ([], [])"
| "scanLongString (c # cs) =
     (if HasPrefix (c # cs) [CHR 0x22, CHR 0x22, CHR 0x22] then ([CHR 0x22], drop 3 (c # cs))
      else (case scanLongString cs of (out, rest) \<Rightarrow> (c # out, rest)))"

text \<open>The body of a single-quoted literal, up to the closing quote (which is left unread).\<close>

fun scanShortString :: "string \<Rightarrow> string \<times> string" where
  "scanShortString [] = ([], [])"
| "scanShortString [c] = (if c = CHR 0x22 then ([], [c]) else ([c], []))"
| "scanShortString (c # d # cs) =
     (if c = CHR 0x22 then ([], c # d # cs)
      else if c = CHR 0x5C then (case scanShortString cs of (out, rest) \<Rightarrow> (c # d # out, rest))
      else (case scanShortString (d # cs) of (out, rest) \<Rightarrow> (c # out, rest)))"

definition parseLiteral :: "TurtleParser \<Rightarrow> (error + string) \<times> TurtleParser" where
  "parseLiteral p =
     (let (sb, p1) =
            (if lookingAt p [CHR 0x22, CHR 0x22, CHR 0x22] then
               (case scanLongString (drop 3 (input p)) of
                  (out, rest) \<Rightarrow> ([CHR 0x22] @ out, p\<lparr>input := rest\<rparr>))
             else
               (case scanShortString (drop 1 (input p)) of
                  (out, rest) \<Rightarrow>
                    ([CHR 0x22] @ out @ [CHR 0x22],
                     p\<lparr>input := (if rest \<noteq> [] then drop 1 rest else rest)\<rparr>)))
      in if input p1 \<noteq> [] \<and> hd (input p1) = CHR ''@'' then
           (let p2 = advance 1 p1;
                tag = takeWhile (\<lambda>ch. isAlphaNum ch \<or> ch = CHR ''-'') (input p2)
            in (Inr (sb @ ''@'' @ tag),
                p2\<lparr>input := dropWhile (\<lambda>ch. isAlphaNum ch \<or> ch = CHR ''-'') (input p2)\<rparr>))
         else if lookingAt p1 ''^^'' then
           (let p2 = advance 2 p1 in
            if input p2 \<noteq> [] \<and> hd (input p2) = CHR ''<'' then
              (case parseIRI p2 of
                 (res, p3) \<Rightarrow>
                   (let iri = (case res of Inl _ \<Rightarrow> [] | Inr s \<Rightarrow> s)
                    in (Inr (sb @ ''^^'' @ ''<'' @ resolveIRI p3 iri @ ''>''), p3)))
            else
              (case parsePrefixedName p2 of
                 (res, p3) \<Rightarrow>
                   (let dt = (case res of Inl _ \<Rightarrow> [] | Inr s \<Rightarrow> s)
                    in (Inr (sb @ ''^^'' @ ''<'' @ dt @ ''>''), p3))))
         else (Inr sb, p1))"

definition parseSubject :: "TurtleParser \<Rightarrow> (error + string) \<times> TurtleParser" where
  "parseSubject p0 =
     (let p = skipWhitespaceAndComments p0 in
      if input p = [] then (Inl UnexpectedEndOfInput, p)
      else if hd (input p) = CHR ''<'' then
        (case parseIRI p of
           (Inl err, p1) \<Rightarrow> (Inl err, p1)
         | (Inr iri, p1) \<Rightarrow> (Inr (resolveIRI p1 iri), p1))
      else if lookingAt p ''_:'' then parseBlankNode p
      else parsePrefixedName p)"

definition parsePredicate :: "TurtleParser \<Rightarrow> (error + string) \<times> TurtleParser" where
  "parsePredicate p0 =
     (let p = skipWhitespaceAndComments p0 in
      if input p = [] then (Inl UnexpectedEndOfInput, p)
      else if hd (input p) = CHR ''a'' \<and>
              (length (input p) \<le> 1 \<or> \<not> isNameChar (input p ! 1)) then
        (Inr RDFType, advance 1 p)
      else if hd (input p) = CHR ''<'' then
        (case parseIRI p of
           (Inl err, p1) \<Rightarrow> (Inl err, p1)
         | (Inr iri, p1) \<Rightarrow> (Inr (resolveIRI p1 iri), p1))
      else parsePrefixedName p)"

definition parseObject :: "TurtleParser \<Rightarrow> (error + string) \<times> TurtleParser" where
  "parseObject p0 =
     (let p = skipWhitespaceAndComments p0 in
      if input p = [] then (Inl UnexpectedEndOfInput, p)
      else if hd (input p) = CHR ''<'' then
        (case parseIRI p of
           (Inl err, p1) \<Rightarrow> (Inl err, p1)
         | (Inr iri, p1) \<Rightarrow> (Inr (resolveIRI p1 iri), p1))
      else if lookingAt p ''_:'' then parseBlankNode p
      else if hd (input p) = CHR 0x22 then parseLiteral p
      else parsePrefixedName p)"

lemma length_skipBlank: "length (skipBlank s) \<le> length s"
proof (induction s rule: skipBlank.induct)
  case 1
  then show ?case by simp
next
  case (2 ch cs)
  have "length (dropWhile (\<lambda>c. c \<noteq> CHR 0x0A) cs) \<le> length cs" by (rule length_dropWhile_le)
  with 2 show ?case by auto
qed

lemma skipWS_le: "length (input (skipWhitespaceAndComments p)) \<le> length (input p)"
  by (simp add: skipWhitespaceAndComments_def length_skipBlank)

lemma advance_le: "length (input (advance n p)) \<le> length (input p)"
  by (simp add: advance_def)

lemma parseIRI_progress:
  "length (input (snd (parseIRI p))) \<le> length (input (skipWhitespaceAndComments p)) \<and>
   (\<forall>iri. fst (parseIRI p) = Inr iri \<longrightarrow>
      length (input (snd (parseIRI p))) < length (input (skipWhitespaceAndComments p)))"
proof (cases "input (skipWhitespaceAndComments p)")
  case Nil
  then show ?thesis by (simp add: parseIRI_def)
next
  case (Cons ch rest)
  note q = Cons
  show ?thesis
  proof (cases "ch = CHR ''<''")
    case False
    then show ?thesis using q by (simp add: parseIRI_def)
  next
    case True
    show ?thesis
    proof (cases "dropWhile (\<lambda>c. c \<noteq> CHR ''>'') rest")
      case Nil
      then show ?thesis using q True
        by (simp add: parseIRI_def Let_def del: dropWhile_eq_Nil_conv)
    next
      case (Cons a as)
      have "length (dropWhile (\<lambda>c. c \<noteq> CHR ''>'') rest) \<le> length rest"
        by (rule length_dropWhile_le)
      then have "length as < length rest" using Cons by simp
      then show ?thesis using q True Cons by (simp add: parseIRI_def Let_def)
    qed
  qed
qed

lemma parseIRI_le: "length (input (snd (parseIRI p))) \<le> length (input p)"
  using parseIRI_progress[of p] skipWS_le[of p] by linarith

lemma parseIRI_lt:
  assumes "parseIRI p = (Inr iri, p')"
  shows "length (input p') < length (input p)"
proof -
  have "fst (parseIRI p) = Inr iri" and "snd (parseIRI p) = p'" using assms by simp_all
  then have "length (input p') < length (input (skipWhitespaceAndComments p))"
    using parseIRI_progress[of p] by auto
  then show ?thesis using skipWS_le[of p] by linarith
qed

lemma parseBlankNode_le: "length (input (snd (parseBlankNode p))) \<le> length (input p)"
  using length_dropWhile_le[of isNameChar "drop 2 (input p)"]
  by (simp add: parseBlankNode_def Let_def)

lemma parseBlankNode_lt:
  "lookingAt p ''_:'' \<Longrightarrow> length (input (snd (parseBlankNode p))) < length (input p)"
proof -
  assume "lookingAt p ''_:''"
  then have "2 \<le> length (input p)" by (simp add: lookingAt_def)
  moreover have "length (dropWhile isNameChar (drop 2 (input p))) \<le> length (input p) - 2"
    using length_dropWhile_le[of isNameChar "drop 2 (input p)"] by simp
  ultimately have "length (dropWhile isNameChar (drop 2 (input p))) < length (input p)" by arith
  then show ?thesis by (simp add: parseBlankNode_def Let_def)
qed

lemma parsePrefixedName_le: "length (input (snd (parsePrefixedName p))) \<le> length (input p)"
proof -
  let ?r = "dropWhile (\<lambda>ch. ch \<noteq> CHR '':'' \<and> isNameChar ch) (input p)"
  have a: "length ?r \<le> length (input p)" by (rule length_dropWhile_le)
  have b: "length (dropWhile isNameChar (drop 1 ?r)) \<le> length ?r"
    using length_dropWhile_le[of isNameChar "drop 1 ?r"] by simp
  show ?thesis using a b
    by (auto simp: parsePrefixedName_def Let_def advance_def split: option.splits)
qed

lemma parsePrefixedName_lt:
  assumes "parsePrefixedName p = (Inr s, p')"
  shows "length (input p') < length (input p)"
proof -
  let ?r = "dropWhile (\<lambda>ch. ch \<noteq> CHR '':'' \<and> isNameChar ch) (input p)"
  have a: "length ?r \<le> length (input p)" by (rule length_dropWhile_le)
  have b: "?r \<noteq> [] \<Longrightarrow> length (dropWhile isNameChar (drop 1 ?r)) < length ?r"
    using length_dropWhile_le[of isNameChar "drop 1 ?r"] by (cases ?r) auto
  show ?thesis using a b assms
    by (auto simp: parsePrefixedName_def Let_def advance_def split: option.splits if_splits)
qed

lemma scanLongString_le: "length (snd (scanLongString s)) \<le> length s"
  by (induction s rule: scanLongString.induct) (auto split: prod.splits)

lemma scanShortString_le: "length (snd (scanShortString s)) \<le> length s"
  by (induction s rule: scanShortString.induct) (auto split: prod.splits)

lemma parseLiteral_lt:
  assumes "input p \<noteq> []"
  shows "length (input (snd (parseLiteral p))) < length (input p)"
proof -
  define sp where "sp = (if lookingAt p [CHR 0x22, CHR 0x22, CHR 0x22] then
               (case scanLongString (drop 3 (input p)) of
                  (out, rest) \<Rightarrow> ([CHR 0x22] @ out, p\<lparr>input := rest\<rparr>))
             else
               (case scanShortString (drop 1 (input p)) of
                  (out, rest) \<Rightarrow>
                    ([CHR 0x22] @ out @ [CHR 0x22],
                     p\<lparr>input := (if rest \<noteq> [] then drop 1 rest else rest)\<rparr>)))"
  have 1: "length (input (snd sp)) < length (input p)"
  proof (cases "lookingAt p [CHR 0x22, CHR 0x22, CHR 0x22]")
    case True
    then have "3 \<le> length (input p)" by (simp add: lookingAt_def)
    moreover have "length (snd (scanLongString (drop 3 (input p)))) \<le> length (drop 3 (input p))"
      by (rule scanLongString_le)
    ultimately show ?thesis using True by (auto simp: sp_def split: prod.splits)
  next
    case False
    have "length (snd (scanShortString (drop 1 (input p)))) \<le> length (drop 1 (input p))"
      by (rule scanShortString_le)
    then show ?thesis using False assms by (cases "input p") (auto simp: sp_def split: prod.splits)
  qed
  obtain sb p1 where sp: "sp = (sb, p1)" by (cases sp)
  have 2: "length (input p1) < length (input p)" using 1 sp by simp
  have 3: "length (input (snd (parseLiteral p))) \<le> length (input p1)"
    unfolding parseLiteral_def sp_def[symmetric] sp
    using length_dropWhile_le[of "\<lambda>ch. isAlphaNum ch \<or> ch = CHR ''-''" "drop 1 (input p1)"]
          parseIRI_le[of "advance 2 p1"] parsePrefixedName_le[of "advance 2 p1"]
          advance_le[of 2 p1]
    by (auto simp: Let_def advance_def split: prod.splits)
  show ?thesis using 2 3 by simp
qed

lemma parseSubject_le: "length (input (snd (parseSubject p))) \<le> length (input p)"
  using skipWS_le[of p] parseIRI_le[of "skipWhitespaceAndComments p"]
        parseBlankNode_le[of "skipWhitespaceAndComments p"]
        parsePrefixedName_le[of "skipWhitespaceAndComments p"]
  by (auto simp: parseSubject_def Let_def split: prod.splits sum.splits)

lemma parseSubject_lt:
  assumes "parseSubject p = (Inr s, p')"
  shows "length (input p') < length (input p)"
proof -
  let ?q = "skipWhitespaceAndComments p"
  have "length (input p') < length (input ?q)"
    using assms parseIRI_lt[of ?q] parseBlankNode_lt[of ?q] parsePrefixedName_lt[of ?q]
    by (auto simp: parseSubject_def Let_def split: prod.splits sum.splits if_splits)
  then show ?thesis using skipWS_le[of p] by simp
qed

lemma parsePredicate_le: "length (input (snd (parsePredicate p))) \<le> length (input p)"
  using skipWS_le[of p] parseIRI_le[of "skipWhitespaceAndComments p"]
        parsePrefixedName_le[of "skipWhitespaceAndComments p"]
        advance_le[of 1 "skipWhitespaceAndComments p"]
  by (auto simp: parsePredicate_def Let_def split: prod.splits sum.splits)

lemma parseObject_le: "length (input (snd (parseObject p))) \<le> length (input p)"
proof -
  let ?q = "skipWhitespaceAndComments p"
  have "input ?q \<noteq> [] \<Longrightarrow> length (input (snd (parseLiteral ?q))) \<le> length (input ?q)"
    using parseLiteral_lt[of ?q] by simp
  then show ?thesis
    using skipWS_le[of p] parseIRI_le[of ?q] parseBlankNode_le[of ?q] parsePrefixedName_le[of ?q]
    by (auto simp: parseObject_def Let_def split: prod.splits sum.splits)
qed

text \<open>The object list of one predicate: the inner loop of \<open>parseTriples\<close>.\<close>

function objectList ::
  "TurtleParser \<Rightarrow> string \<Rightarrow> string \<Rightarrow> Triple list \<Rightarrow> (error + Triple list) \<times> TurtleParser" where
  "objectList p subject predicate trs =
     (case parseObject (skipWhitespaceAndComments p) of
        (Inl err, p1) \<Rightarrow> (Inl err, p1)
      | (Inr object, p1) \<Rightarrow>
          (let trs' = trs @ [\<lparr>Subject = subject, Predicate = predicate, Object = object\<rparr>];
               p2 = skipWhitespaceAndComments p1
           in if input p2 = [] then (Inr trs', p2)
              else if hd (input p2) = CHR '','' then
                objectList (advance 1 p2) subject predicate trs'
              else (Inr trs', p2)))"
  by pat_completeness auto
termination
proof (relation "measure (\<lambda>(p, s, pr, ts). length (input p))", goal_cases)
  case 1
  then show ?case by simp
next
  case (2 p subject predicate trs x1 p1 object trs' p2)
  have "p1 = snd (parseObject (skipWhitespaceAndComments p))" using 2(1) by (metis snd_conv)
  then have "length (input p1) \<le> length (input p)"
    using parseObject_le[of "skipWhitespaceAndComments p"] skipWS_le[of p] by simp
  moreover have "length (input p2) \<le> length (input p1)" using 2 skipWS_le[of p1] by simp
  moreover have "length (input (advance 1 p2)) < length (input p2)"
    using 2 by (simp add: advance_def)
  ultimately show ?case by simp
qed

declare objectList.simps [simp del]

text \<open>The predicate-object list of one subject: the outer loop of \<open>parseTriples\<close>.\<close>

lemma objectList_le: "length (input (snd (objectList p s pr trs))) \<le> length (input p)"
proof (induction p s pr trs rule: objectList.induct)
  case (1 p subject predicate trs)
  let ?q = "skipWhitespaceAndComments p"
  obtain res p1 where po: "parseObject ?q = (res, p1)" by (cases "parseObject ?q")
  have l1: "length (input p1) \<le> length (input p)"
    using parseObject_le[of ?q] skipWS_le[of p] po by simp
  show ?case
  proof (cases res)
    case (Inl err)
    then show ?thesis using po l1 by (subst objectList.simps) simp
  next
    case (Inr object)
    let ?p2 = "skipWhitespaceAndComments p1"
    have l2: "length (input ?p2) \<le> length (input p1)" by (rule skipWS_le)
    show ?thesis
    proof (cases "input ?p2 \<noteq> [] \<and> hd (input ?p2) = CHR '',''")
      case True
      have "length (input (snd (objectList (advance 1 ?p2) subject predicate
               (trs @ [\<lparr>Subject = subject, Predicate = predicate, Object = object\<rparr>]))))
            \<le> length (input (advance 1 ?p2))"
        using "1.IH"[OF po[symmetric] Inr refl refl] True by simp
      then show ?thesis using po Inr True l1 l2 advance_le[of 1 ?p2]
        by (subst objectList.simps) (simp add: Let_def)
    next
      case False
      then show ?thesis using po Inr l1 l2
        by (subst objectList.simps) (auto simp: Let_def)
    qed
  qed
qed

function predicateObjectList ::
  "TurtleParser \<Rightarrow> string \<Rightarrow> Triple list \<Rightarrow> (error + Triple list) \<times> TurtleParser" where
  "predicateObjectList p subject trs =
     (let p1 = skipWhitespaceAndComments p in
      if input p1 = [] then (Inr trs, p1)
      else if hd (input p1) = CHR ''.'' then (Inr trs, advance 1 p1)
      else
        (case parsePredicate p1 of
           (Inl err, p2) \<Rightarrow> (Inl err, p2)
         | (Inr predicate, p2) \<Rightarrow>
             (case objectList p2 subject predicate trs of
                (Inl err, p3) \<Rightarrow> (Inl err, p3)
              | (Inr trs', p3) \<Rightarrow>
                  (let p4 = skipWhitespaceAndComments p3 in
                   if input p4 = [] then (Inr trs', p4)
                   else if hd (input p4) = CHR '';'' then
                     (let p5 = skipWhitespaceAndComments (advance 1 p4) in
                      if input p5 \<noteq> [] \<and> hd (input p5) = CHR ''.'' then (Inr trs', advance 1 p5)
                      else predicateObjectList p5 subject trs')
                   else if hd (input p4) = CHR ''.'' then (Inr trs', advance 1 p4)
                   else (Inr trs', p4)))))"
  by pat_completeness auto
termination
proof (relation "measure (\<lambda>(p, s, ts). length (input p))", goal_cases)
  case 1
  then show ?case by simp
next
  case (2 p subject trs p1 x1 p2 predicate x1a p3 trs' p4 p5)
  have "p2 = snd (parsePredicate p1)" using 2 by (metis snd_conv)
  then have a: "length (input p2) \<le> length (input p)"
    using parsePredicate_le[of p1] skipWS_le[of p] 2 by simp
  have "p3 = snd (objectList p2 subject predicate trs)" using 2 by (metis snd_conv)
  then have b: "length (input p3) \<le> length (input p2)" using objectList_le by simp
  have c: "length (input p4) \<le> length (input p3)" using 2 skipWS_le[of p3] by simp
  have d: "length (input (advance 1 p4)) < length (input p4)" using 2 by (simp add: advance_def)
  have e: "length (input p5) \<le> length (input (advance 1 p4))"
    using 2 skipWS_le[of "advance 1 p4"] by simp
  show ?case using a b c d e by simp
qed

declare predicateObjectList.simps [simp del]

definition parseTriples :: "TurtleParser \<Rightarrow> (error + Triple list) \<times> TurtleParser" where
  "parseTriples p =
     (case parseSubject p of
        (Inl err, p1) \<Rightarrow> (Inl err, p1)
      | (Inr subject, p1) \<Rightarrow> predicateObjectList p1 subject [])"

definition skipToNextStatement :: "TurtleParser \<Rightarrow> TurtleParser" where
  "skipToNextStatement p =
     p\<lparr>input := (case dropWhile (\<lambda>c. c \<noteq> CHR ''.'') (input p) of [] \<Rightarrow> [] | _ # rest \<Rightarrow> rest)\<rparr>"

lemma predicateObjectList_le:
  "length (input (snd (predicateObjectList p s trs))) \<le> length (input p)"
proof (induction p s trs rule: predicateObjectList.induct)
  case (1 p subject trs)
  let ?p1 = "skipWhitespaceAndComments p"
  have l1: "length (input ?p1) \<le> length (input p)" by (rule skipWS_le)
  show ?case
  proof (cases "input ?p1 = [] \<or> hd (input ?p1) = CHR ''.''")
    case True
    then show ?thesis using l1 advance_le[of 1 ?p1]
      by (subst predicateObjectList.simps) (auto simp: Let_def)
  next
    case False
    obtain res p2 where pp: "parsePredicate ?p1 = (res, p2)" by (cases "parsePredicate ?p1")
    have l2: "length (input p2) \<le> length (input ?p1)" using parsePredicate_le[of ?p1] pp by simp
    show ?thesis
    proof (cases res)
      case (Inl err)
      then show ?thesis using False pp l1 l2
        by (subst predicateObjectList.simps) (simp add: Let_def)
    next
      case (Inr predicate)
      obtain res3 p3 where ol: "objectList p2 subject predicate trs = (res3, p3)"
        by (cases "objectList p2 subject predicate trs")
      have l3: "length (input p3) \<le> length (input p2)"
        using objectList_le[of p2 subject predicate trs] ol by simp
      show ?thesis
      proof (cases res3)
        case (Inl err)
        then show ?thesis using False pp Inr ol l1 l2 l3
          by (subst predicateObjectList.simps) (simp add: Let_def)
      next
        case (Inr trs')
        note r3 = Inr
        let ?p4 = "skipWhitespaceAndComments p3"
        let ?p5 = "skipWhitespaceAndComments (advance 1 ?p4)"
        have l4: "length (input ?p4) \<le> length (input p3)" by (rule skipWS_le)
        have l5: "length (input ?p5) \<le> length (input ?p4)"
          using skipWS_le[of "advance 1 ?p4"] advance_le[of 1 ?p4] by simp
        show ?thesis
        proof (cases "input ?p4 \<noteq> [] \<and> hd (input ?p4) = CHR '';'' \<and>
                      \<not> (input ?p5 \<noteq> [] \<and> hd (input ?p5) = CHR ''.'')")
          case True
          have "length (input (snd (predicateObjectList ?p5 subject trs'))) \<le> length (input ?p5)"
            using "1.IH"[OF refl _ _ pp[symmetric] \<open>res = Inr predicate\<close> ol[symmetric] r3 refl _ _ refl]
                  False True by auto
          then show ?thesis using False pp \<open>res = Inr predicate\<close> ol r3 True l1 l2 l3 l4 l5
            by (subst predicateObjectList.simps) (auto simp: Let_def)
        next
          case False2: False
          then show ?thesis
            using False pp \<open>res = Inr predicate\<close> ol r3 l1 l2 l3 l4 l5
                  advance_le[of 1 ?p4] advance_le[of 1 ?p5]
            by (subst predicateObjectList.simps) (auto simp: Let_def)
        qed
      qed
    qed
  qed
qed

lemma parseTriples_le: "length (input (snd (parseTriples p))) \<le> length (input p)"
proof -
  obtain res p1 where ps: "parseSubject p = (res, p1)" by (cases "parseSubject p")
  have "length (input p1) \<le> length (input p)" using parseSubject_le[of p] ps by simp
  then show ?thesis using ps predicateObjectList_le[of p1]
    by (auto simp: parseTriples_def split: sum.splits intro: order_trans)
qed

lemma parseTriples_lt:
  assumes "parseTriples p = (Inr ts, p')"
  shows "length (input p') < length (input p)"
proof -
  obtain res p1 where ps: "parseSubject p = (res, p1)" by (cases "parseSubject p")
  from assms ps obtain subject where r: "res = Inr subject"
    by (cases res) (auto simp: parseTriples_def)
  have "length (input p1) < length (input p)" using parseSubject_lt ps r by simp
  moreover have "p' = snd (predicateObjectList p1 subject [])"
    using assms ps r by (simp add: parseTriples_def)
  ultimately show ?thesis using predicateObjectList_le[of p1 subject "[]"] by simp
qed

lemma skipToNextStatement_lt:
  "input p \<noteq> [] \<Longrightarrow> length (input (skipToNextStatement p)) < length (input p)"
proof -
  assume ne: "input p \<noteq> []"
  have le: "length (dropWhile (\<lambda>c. c \<noteq> CHR ''.'') (input p)) \<le> length (input p)"
    by (rule length_dropWhile_le)
  show ?thesis
  proof (cases "dropWhile (\<lambda>c. c \<noteq> CHR ''.'') (input p)")
    case Nil
    then show ?thesis using ne by (simp add: skipToNextStatement_def del: dropWhile_eq_Nil_conv)
  next
    case (Cons a as)
    then show ?thesis using le by (simp add: skipToNextStatement_def)
  qed
qed

lemma skipToNextStatement_le:
  "length (input (skipToNextStatement p)) \<le> length (input p)"
  using skipToNextStatement_lt[of p] by (cases "input p = []") (auto simp: skipToNextStatement_def)

lemma scanPrefixName_le: "length (snd (scanPrefixName s)) \<le> length s"
  by (induction s) (auto split: prod.splits)

lemma parsePrefixName_le: "length (input (snd (parsePrefixName p))) \<le> length (input p)"
  using scanPrefixName_le[of "input p"] by (auto simp: parsePrefixName_def split: prod.splits)

lemma parsePrefix_lt:
  assumes "input p \<noteq> []"
  shows "length (input (snd (parsePrefix p))) < length (input p)"
proof -
  define p1 where "p1 = (if lookingAt p ''@prefix'' then advance 7 p else advance 6 p)"
  have l1: "length (input p1) < length (input p)" using assms by (auto simp: p1_def advance_def)
  let ?p2 = "skipWhitespaceAndComments p1"
  obtain name p3 where pn: "parsePrefixName ?p2 = (name, p3)" by (cases "parsePrefixName ?p2")
  have l3: "length (input p3) \<le> length (input p1)"
    using parsePrefixName_le[of ?p2] pn skipWS_le[of p1] by simp
  obtain res p4 where pi: "parseIRI (skipWhitespaceAndComments p3) = (res, p4)"
    by (cases "parseIRI (skipWhitespaceAndComments p3)")
  have l4: "length (input p4) \<le> length (input p3)"
    using parseIRI_le[of "skipWhitespaceAndComments p3"] pi skipWS_le[of p3] by simp
  let ?p5 = "skipWhitespaceAndComments p4"
  have l5: "length (input ?p5) \<le> length (input p4)" by (rule skipWS_le)
  have l6: "length (input (advance 1 ?p5)) \<le> length (input ?p5)" by (rule advance_le)
  show ?thesis
    unfolding parsePrefix_def p1_def[symmetric] Let_def pn prod.case pi
    using l1 l3 l4 l5 l6 by (cases res) auto
qed

lemma parseBase_lt:
  assumes "input p \<noteq> []"
  shows "length (input (snd (parseBase p))) < length (input p)"
proof -
  define p1 where "p1 = (if lookingAt p ''@base'' then advance 5 p else advance 4 p)"
  have l1: "length (input p1) < length (input p)" using assms by (auto simp: p1_def advance_def)
  let ?p2 = "skipWhitespaceAndComments p1"
  obtain res p3 where pi: "parseIRI ?p2 = (res, p3)" by (cases "parseIRI ?p2")
  have l3: "length (input p3) \<le> length (input p1)"
    using parseIRI_le[of ?p2] pi skipWS_le[of p1] by simp
  let ?p4 = "skipWhitespaceAndComments p3"
  have l4: "length (input ?p4) \<le> length (input p3)" by (rule skipWS_le)
  have l5: "length (input (advance 1 ?p4)) \<le> length (input ?p4)" by (rule advance_le)
  show ?thesis
    unfolding parseBase_def p1_def[symmetric] Let_def pi prod.case
    using l1 l3 l4 l5 by (cases res) auto
qed

text \<open>The loop of \<open>Parse\<close>, from the parser's state and the triples collected so far.\<close>

function parseStatements :: "TurtleParser \<Rightarrow> Triple list \<Rightarrow> error + Triple list" where
  "parseStatements p trs =
     (if input p = [] then Inr trs
      else
        (let p1 = skipWhitespaceAndComments p in
         if input p1 = [] then Inr trs
         else if lookingAt p1 ''@prefix'' \<or> lookingAtCaseInsensitive p1 ''PREFIX'' then
           (case parsePrefix p1 of
              (Some err, p2) \<Rightarrow> Inl err
            | (None, p2) \<Rightarrow> parseStatements p2 trs)
         else if lookingAt p1 ''@base'' \<or> lookingAtCaseInsensitive p1 ''BASE'' then
           (case parseBase p1 of
              (Some err, p2) \<Rightarrow> Inl err
            | (None, p2) \<Rightarrow> parseStatements p2 trs)
         else
           (case parseTriples p1 of
              (Inl err, p2) \<Rightarrow> parseStatements (skipToNextStatement p2) trs
            | (Inr newTriples, p2) \<Rightarrow> parseStatements p2 (trs @ newTriples))))"
  by pat_completeness auto
termination
proof (relation "measure (\<lambda>(p, ts). length (input p))", goal_cases)
  case 1
  then show ?case by simp
next
  case (2 p trs p1 x1 p2)
  have "p2 = snd (parsePrefix p1)" using 2 by (metis snd_conv)
  then have "length (input p2) < length (input p1)" using parsePrefix_lt[of p1] 2 by simp
  then show ?case using 2 skipWS_le[of p] by simp
next
  case (3 p trs p1 x1 p2)
  have "p2 = snd (parseBase p1)" using 3 by (metis snd_conv)
  then have "length (input p2) < length (input p1)" using parseBase_lt[of p1] 3 by simp
  then show ?case using 3 skipWS_le[of p] by simp
next
  case (4 p trs p1 x1 p2 err)
  have "p2 = snd (parseTriples p1)" using 4 by (metis snd_conv)
  then have a: "length (input p2) \<le> length (input p1)" using parseTriples_le[of p1] by simp
  have "length (input (skipToNextStatement p2)) < length (input p1)"
  proof (cases "input p2 = []")
    case True
    then show ?thesis using 4 by (simp add: skipToNextStatement_def)
  next
    case False
    then show ?thesis using skipToNextStatement_lt[of p2] a by simp
  qed
  then show ?case using 4 skipWS_le[of p] by simp
next
  case (5 p trs p1 x1 p2 newTriples)
  have "parseTriples p1 = (Inr newTriples, p2)" using 5 by simp
  then have "length (input p2) < length (input p1)" by (rule parseTriples_lt)
  then show ?case using 5 skipWS_le[of p] by simp
qed

declare parseStatements.simps [simp del]

definition BOM :: string where
  "BOM = [CHR 0xEF, CHR 0xBB, CHR 0xBF]"

fun ReplaceAll_CRLF :: "string \<Rightarrow> string" where
  "ReplaceAll_CRLF (c # d # cs) =
     (if c = CHR 0x0D \<and> d = CHR 0x0A then CHR 0x0A # ReplaceAll_CRLF cs
      else c # ReplaceAll_CRLF (d # cs))"
| "ReplaceAll_CRLF cs = cs"

definition Parse :: "string \<Rightarrow> error + Triple list" where
  "Parse content =
     parseStatements
       \<lparr>prefixes = Map.empty, base = [], input = ReplaceAll_CRLF (TrimPrefix content BOM)\<rparr> []"

section \<open>Loading, reading and the entry points\<close>

text \<open>Go wraps the errors on the way up; the wrappers are constructors.\<close>

datatype loadError = FailedToParseTurtle error

datatype reasonError = FailedToLoadTBox loadError | FailedToLoadABox loadError

text \<open>The loop of \<open>LoadTurtle\<close>: every parsed triple is added, the answer of \<open>Add\<close> dropped.\<close>

primrec loadTriples :: "TripleStore \<Rightarrow> Triple list \<Rightarrow> TripleStore" where
  "loadTriples ts [] = ts"
| "loadTriples ts (t # rest) = loadTriples (snd (Add ts t)) rest"

definition LoadTurtle :: "Reasoner \<Rightarrow> string \<Rightarrow> loadError + Reasoner" where
  "LoadTurtle r content =
     (case Parse content of
        Inl err \<Rightarrow> Inl (FailedToParseTurtle err)
      | Inr trs \<Rightarrow> Inr (r\<lparr>store := loadTriples (store r) trs\<rparr>))"

definition formatTerm :: "string \<Rightarrow> string" where
  "formatTerm term =
     (if HasPrefix term ''http://'' \<or> HasPrefix term ''https://'' then ''<'' @ term @ ''>''
      else if HasPrefix term ''<'' \<and> HasSuffix term ''>'' then term
      else if HasPrefix term [CHR 0x22] then term
      else if Contains_str term '':'' \<and> \<not> HasPrefix term ''_:'' then term
      else term)"

definition Triple_String :: "Triple \<Rightarrow> string" where
  "Triple_String t =
     formatTerm (Subject t) @ '' '' @ formatTerm (Predicate t) @ '' '' @
     formatTerm (Object t) @ '' .''"

text \<open>
  \<^verbatim>\<open>sort.Strings\<close> orders strings byte by byte, a proper prefix first: the
  lexicographic order of \<^typ>\<open>string\<close>.
\<close>

definition GetAllTriples :: "Reasoner \<Rightarrow> string list" where
  "GetAllTriples r = sort (map Triple_String (All (store r)))"

definition ForwardReason :: "mapOrder \<Rightarrow> string \<Rightarrow> string \<Rightarrow> (reasonError + string list) option" where
  "ForwardReason ord abox tbox =
     (case (if tbox \<noteq> [] then LoadTurtle NewReasoner tbox else Inr NewReasoner) of
        Inl err \<Rightarrow> Some (Inl (FailedToLoadTBox err))
      | Inr r1 \<Rightarrow>
          (case (if abox \<noteq> [] then LoadTurtle r1 abox else Inr r1) of
             Inl err \<Rightarrow> Some (Inl (FailedToLoadABox err))
           | Inr r2 \<Rightarrow>
               (case RunForwardReasoning ord r2 of
                  None \<Rightarrow> None
                | Some (n, r3) \<Rightarrow> Some (Inr (GetAllTriples r3)))))"

record ReasoningResult =
  OriginalTriples :: "string list"
  InferredTriples :: "string list"
  AllTriples :: "string list"
  OriginalCount :: nat
  InferredCount :: nat
  TotalCount :: nat

definition ForwardReasonWithDetails ::
  "mapOrder \<Rightarrow> string \<Rightarrow> string \<Rightarrow> (reasonError + ReasoningResult) option" where
  "ForwardReasonWithDetails ord abox tbox =
     (case (if tbox \<noteq> [] then LoadTurtle NewReasoner tbox else Inr NewReasoner) of
        Inl err \<Rightarrow> Some (Inl (FailedToLoadTBox err))
      | Inr r1 \<Rightarrow>
          (case (if abox \<noteq> [] then LoadTurtle r1 abox else Inr r1) of
             Inl err \<Rightarrow> Some (Inl (FailedToLoadABox err))
           | Inr r2 \<Rightarrow>
               (let originalCount = Size (store r2);
                    originalTriples = GetAllTriples r2
                in case RunForwardReasoning ord r2 of
                     None \<Rightarrow> None
                   | Some (inferredCount, r3) \<Rightarrow>
                       (let allTriples = GetAllTriples r3;
                            inferredTriples = filter (\<lambda>t. t \<notin> set originalTriples) allTriples
                        in Some (Inr \<lparr>OriginalTriples = originalTriples,
                                       InferredTriples = inferredTriples,
                                       AllTriples = allTriples,
                                       OriginalCount = originalCount,
                                       InferredCount = inferredCount,
                                       TotalCount = length allTriples\<rparr>)))))"

section \<open>The store's invariant\<close>

definition wf_store :: "TripleStore \<Rightarrow> bool" where
  "wf_store ts =
     ((\<forall>k. triples ts k = (k \<in> tripleKey ` set (tripleList ts))) \<and>
      (\<forall>s. bySubject ts s = filter (\<lambda>i. Subject (tripleList ts ! i) = s) [0..<length (tripleList ts)]) \<and>
      (\<forall>p. byPredicate ts p = filter (\<lambda>i. Predicate (tripleList ts ! i) = p) [0..<length (tripleList ts)]) \<and>
      (\<forall>ob. byObject ts ob = filter (\<lambda>i. Object (tripleList ts ! i) = ob) [0..<length (tripleList ts)]) \<and>
      distinct (map tripleKey (tripleList ts)))"

lemma wf_NewTripleStore: "wf_store NewTripleStore"
  by (simp add: wf_store_def NewTripleStore_def)

lemma filter_upt_snoc:
  "filter (\<lambda>i. P ((l @ [t]) ! i)) [0..<Suc (length l)] =
   filter (\<lambda>i. P (l ! i)) [0..<length l] @ (if P t then [length l] else [])"
proof -
  have "filter (\<lambda>i. P ((l @ [t]) ! i)) [0..<length l] = filter (\<lambda>i. P (l ! i)) [0..<length l]"
    by (rule filter_cong) (auto simp: nth_append)
  then show ?thesis by simp
qed

lemma filter_upt_snoc_eq:
  "filter (\<lambda>i. f ((l @ [t]) ! i) = v) [0..<Suc (length l)] =
   filter (\<lambda>i. f (l ! i) = v) [0..<length l] @ (if f t = v then [length l] else [])"
  using filter_upt_snoc[of "\<lambda>t. f t = v" l t] by simp

lemma wf_Add: "wf_store ts \<Longrightarrow> wf_store (snd (Add ts t))"
  unfolding wf_store_def Add_def Let_def
  by (auto simp: filter_upt_snoc_eq simp del: upt_Suc)

lemma Add_new: "wf_store ts \<Longrightarrow> fst (Add ts t) = (tripleKey t \<notin> tripleKey ` set (tripleList ts))"
  by (simp add: wf_store_def Add_def Let_def)

lemma Add_list: "tripleList (snd (Add ts t)) = (if triples ts (tripleKey t) then tripleList ts else tripleList ts @ [t])"
  by (simp add: Add_def Let_def)

lemma lookupEach_map: "\<forall>i\<in>set is. i < length l \<Longrightarrow> lookupEach l is = Some (map ((!) l) is)"
  by (induction "is") (auto simp: index_def)

lemma map_nth_filter: "map ((!) l) (filter (\<lambda>i. P (l ! i)) [0..<length l]) = filter P l"
proof -
  have "filter P (map ((!) l) [0..<length l]) = map ((!) l) (filter (P \<circ> (!) l) [0..<length l])"
    by (rule filter_map)
  then show ?thesis by (simp add: map_nth comp_def)
qed

lemma map_nth_filter_eq:
  "map ((!) l) (filter (\<lambda>i. f (l ! i) = v) [0..<length l]) = filter (\<lambda>t. f t = v) l"
  using map_nth_filter[of l "\<lambda>t. f t = v"] by simp

lemma wf_FindByPredicate:
  "wf_store ts \<Longrightarrow> FindByPredicate ts p = Some (filter (\<lambda>t. Predicate t = p) (tripleList ts))"
  by (simp add: FindByPredicate_def wf_store_def lookupEach_map map_nth_filter_eq)

lemma wf_FindBySubject:
  "wf_store ts \<Longrightarrow> FindBySubject ts s = Some (filter (\<lambda>t. Subject t = s) (tripleList ts))"
  by (simp add: FindBySubject_def wf_store_def lookupEach_map map_nth_filter_eq)

lemma wf_FindByObject:
  "wf_store ts \<Longrightarrow> FindByObject ts s = Some (filter (\<lambda>t. Object t = s) (tripleList ts))"
  by (simp add: FindByObject_def wf_store_def lookupEach_map map_nth_filter_eq)

lemma wf_FindBySubjectPredicate:
  "wf_store ts \<Longrightarrow> FindBySubjectPredicate ts s p =
     Some (filter (\<lambda>t. Predicate t = p) (filter (\<lambda>t. Subject t = s) (tripleList ts)))"
  by (simp add: FindBySubjectPredicate_def wf_store_def lookupEach_map map_nth_filter_eq)

lemma wf_FindByPredicateObject:
  "wf_store ts \<Longrightarrow> FindByPredicateObject ts p ob =
     Some (filter (\<lambda>t. Object t = ob) (filter (\<lambda>t. Predicate t = p) (tripleList ts)))"
  by (simp add: FindByPredicateObject_def wf_store_def lookupEach_map map_nth_filter_eq)

lemma wf_Contains: "wf_store ts \<Longrightarrow> Contains ts t = (tripleKey t \<in> tripleKey ` set (tripleList ts))"
  by (simp add: Contains_def wf_store_def)

lemma forEach_Some: "forEach xs (\<lambda>x. Some (f x)) = Some (concat (map f xs))"
  by (induction xs) auto

section \<open>What the rules propose\<close>

definition isLiteral :: "string \<Rightarrow> bool" where
  "isLiteral y = (length y > 0 \<and> y ! 0 = CHR 0x22)"

definition transStep :: "string \<Rightarrow> Triple set \<Rightarrow> Triple set" where
  "transStep p S =
     {\<lparr>Subject = Subject t1, Predicate = p, Object = Object t2\<rparr> | t1 t2.
        t1 \<in> S \<and> t2 \<in> S \<and> Predicate t1 = p \<and> Predicate t2 = p \<and>
        Subject t2 = Object t1 \<and> Subject t1 \<noteq> Object t2}"

definition symStep :: "string \<Rightarrow> Triple set \<Rightarrow> Triple set" where
  "symStep p S =
     {\<lparr>Subject = Object t, Predicate = p, Object = Subject t\<rparr> | t. t \<in> S \<and> Predicate t = p}"

definition declared :: "string \<Rightarrow> Triple set \<Rightarrow> string set" where
  "declared c S = {Subject d | d. d \<in> S \<and> Predicate d = RDFType \<and> Object d = c}"

fun derive :: "Rule \<Rightarrow> Triple set \<Rightarrow> Triple set" where
  "derive SubClassTransitivity S = transStep RDFSSubClassOf S"
| "derive TypeInheritance S =
     {\<lparr>Subject = Subject t, Predicate = RDFType, Object = Object sc\<rparr> | t sc.
        t \<in> S \<and> sc \<in> S \<and> Predicate t = RDFType \<and> Predicate sc = RDFSSubClassOf \<and>
        Subject sc = Object t}"
| "derive DomainInference S =
     {\<lparr>Subject = Subject t, Predicate = RDFType, Object = Object dt\<rparr> | dt t.
        dt \<in> S \<and> t \<in> S \<and> Predicate dt = RDFSDomain \<and> Predicate t = Subject dt}"
| "derive RangeInference S =
     {\<lparr>Subject = Object t, Predicate = RDFType, Object = Object rt\<rparr> | rt t.
        rt \<in> S \<and> t \<in> S \<and> Predicate rt = RDFSRange \<and> Predicate t = Subject rt \<and>
        \<not> isLiteral (Object t)}"
| "derive SubPropertyTransitivity S = transStep RDFSSubPropertyOf S"
| "derive SubPropertyInheritance S =
     {\<lparr>Subject = Subject t, Predicate = Object sp, Object = Object t\<rparr> | sp t.
        sp \<in> S \<and> t \<in> S \<and> Predicate sp = RDFSSubPropertyOf \<and> Predicate t = Subject sp}"
| "derive EquivalentClassSymmetry S = symStep OWLEquivalentClass S"
| "derive EquivalentClassTransitivity S = transStep OWLEquivalentClass S"
| "derive SameAsSymmetry S = symStep OWLSameAs S"
| "derive SameAsTransitivity S = transStep OWLSameAs S"
| "derive InversePropertyInference S =
     {\<lparr>Subject = Object t, Predicate = Object inv, Object = Subject t\<rparr> | inv t.
        inv \<in> S \<and> t \<in> S \<and> Predicate inv = OWLInverseOf \<and> Predicate t = Subject inv}
     \<union> {\<lparr>Subject = Object t, Predicate = Subject inv, Object = Subject t\<rparr> | inv t.
        inv \<in> S \<and> t \<in> S \<and> Predicate inv = OWLInverseOf \<and> Predicate t = Object inv}"
| "derive TransitivePropertyInference S =
     (\<Union>prop \<in> declared OWLTransitiveProperty S. transStep prop S)"
| "derive SymmetricPropertyInference S =
     (\<Union>prop \<in> declared OWLSymmetricProperty S. symStep prop S)"

lemma transLoop:
  assumes "wf_store ts"
  shows "set (concat (map (\<lambda>t1. concat (map (\<lambda>t2.
            if \<not> Contains ts \<lparr>Subject = Subject t1, Predicate = p, Object = Object t2\<rparr> \<and> Subject t1 \<noteq> Object t2
            then [\<lparr>Subject = Subject t1, Predicate = p, Object = Object t2\<rparr>] else [])
          (filter (\<lambda>t. Predicate t = p) (filter (\<lambda>t. Subject t = Object t1) (tripleList ts)))))
        (filter (\<lambda>t. Predicate t = p) (tripleList ts))))
       = {t \<in> transStep p (set (tripleList ts)). \<not> Contains ts t}"
  unfolding transStep_def by (auto split: if_splits)

lemma symLoop:
  assumes "wf_store ts"
  shows "set (concat (map (\<lambda>t.
            if \<not> Contains ts \<lparr>Subject = Object t, Predicate = p, Object = Subject t\<rparr>
            then [\<lparr>Subject = Object t, Predicate = p, Object = Subject t\<rparr>] else [])
        (filter (\<lambda>t. Predicate t = p) (tripleList ts))))
       = {t \<in> symStep p (set (tripleList ts)). \<not> Contains ts t}"
  unfolding symStep_def by (auto split: if_splits)

lemmas wf_Find = wf_FindByPredicate wf_FindBySubjectPredicate wf_FindByPredicateObject

lemma Apply_SubClassTransitivity:
  assumes "wf_store ts"
  shows "\<exists>xs. SubClassTransitivity_Apply ts = Some xs \<and>
              set xs = {t \<in> derive SubClassTransitivity (set (tripleList ts)). \<not> Contains ts t}"
  using assms transLoop[OF assms, of RDFSSubClassOf]
  by (simp add: SubClassTransitivity_Apply_def wf_Find forEach_Some Let_def)

lemma Apply_SubPropertyTransitivity:
  assumes "wf_store ts"
  shows "\<exists>xs. SubPropertyTransitivity_Apply ts = Some xs \<and>
              set xs = {t \<in> derive SubPropertyTransitivity (set (tripleList ts)). \<not> Contains ts t}"
  using assms transLoop[OF assms, of RDFSSubPropertyOf]
  by (simp add: SubPropertyTransitivity_Apply_def wf_Find forEach_Some Let_def)

lemma Apply_EquivalentClassTransitivity:
  assumes "wf_store ts"
  shows "\<exists>xs. EquivalentClassTransitivity_Apply ts = Some xs \<and>
              set xs = {t \<in> derive EquivalentClassTransitivity (set (tripleList ts)). \<not> Contains ts t}"
  using assms transLoop[OF assms, of OWLEquivalentClass]
  by (simp add: EquivalentClassTransitivity_Apply_def wf_Find forEach_Some Let_def)

lemma Apply_SameAsTransitivity:
  assumes "wf_store ts"
  shows "\<exists>xs. SameAsTransitivity_Apply ts = Some xs \<and>
              set xs = {t \<in> derive SameAsTransitivity (set (tripleList ts)). \<not> Contains ts t}"
  using assms transLoop[OF assms, of OWLSameAs]
  by (simp add: SameAsTransitivity_Apply_def wf_Find forEach_Some Let_def)

lemma Apply_EquivalentClassSymmetry:
  assumes "wf_store ts"
  shows "\<exists>xs. EquivalentClassSymmetry_Apply ts = Some xs \<and>
              set xs = {t \<in> derive EquivalentClassSymmetry (set (tripleList ts)). \<not> Contains ts t}"
  using assms symLoop[OF assms, of OWLEquivalentClass]
  by (simp add: EquivalentClassSymmetry_Apply_def wf_Find forEach_Some Let_def)

lemma Apply_SameAsSymmetry:
  assumes "wf_store ts"
  shows "\<exists>xs. SameAsSymmetry_Apply ts = Some xs \<and>
              set xs = {t \<in> derive SameAsSymmetry (set (tripleList ts)). \<not> Contains ts t}"
  using assms symLoop[OF assms, of OWLSameAs]
  by (simp add: SameAsSymmetry_Apply_def wf_Find forEach_Some Let_def)

lemma Apply_TypeInheritance:
  assumes "wf_store ts"
  shows "\<exists>xs. TypeInheritance_Apply ts = Some xs \<and>
              set xs = {t \<in> derive TypeInheritance (set (tripleList ts)). \<not> Contains ts t}"
  using assms
  by (simp add: TypeInheritance_Apply_def wf_Find forEach_Some Let_def) (auto split: if_splits)

lemma Apply_DomainInference:
  assumes "wf_store ts"
  shows "\<exists>xs. DomainInference_Apply ts = Some xs \<and>
              set xs = {t \<in> derive DomainInference (set (tripleList ts)). \<not> Contains ts t}"
  using assms
  by (simp add: DomainInference_Apply_def wf_Find forEach_Some Let_def) (auto split: if_splits)

lemma RangeInference_body:
  "(if y \<noteq> [] \<and> y ! 0 = CHR 0x22 then Some []
    else (let newTriple = n in Some (if \<not> C newTriple then [newTriple] else [])))
   = Some (if isLiteral y \<or> C n then [] else [n])"
  by (simp add: isLiteral_def)

lemma Apply_RangeInference:
  assumes "wf_store ts"
  shows "\<exists>xs. RangeInference_Apply ts = Some xs \<and>
              set xs = {t \<in> derive RangeInference (set (tripleList ts)). \<not> Contains ts t}"
  using assms
  by (simp add: RangeInference_Apply_def wf_Find Let_def RangeInference_body forEach_Some)
     (auto split: if_splits)

lemma Apply_SubPropertyInheritance:
  assumes "wf_store ts"
  shows "\<exists>xs. SubPropertyInheritance_Apply ts = Some xs \<and>
              set xs = {t \<in> derive SubPropertyInheritance (set (tripleList ts)). \<not> Contains ts t}"
  using assms
  by (simp add: SubPropertyInheritance_Apply_def wf_Find forEach_Some Let_def) (auto split: if_splits)

lemma Apply_InversePropertyInference:
  assumes "wf_store ts"
  shows "\<exists>xs. InversePropertyInference_Apply ts = Some xs \<and>
              set xs = {t \<in> derive InversePropertyInference (set (tripleList ts)). \<not> Contains ts t}"
  using assms
  by (simp add: InversePropertyInference_Apply_def wf_Find forEach_Some Let_def)
     (auto split: if_splits)

lemma Apply_TransitivePropertyInference:
  assumes "wf_store ts" and "mapOrder_ok ord"
  shows "\<exists>xs. TransitivePropertyInference_Apply ord ts = Some xs \<and>
              set xs = {t \<in> derive TransitivePropertyInference (set (tripleList ts)). \<not> Contains ts t}"
proof -
  have keys: "set (ord (remdups (map Subject (filter (\<lambda>t. Object t = OWLTransitiveProperty)
                 (filter (\<lambda>t. Predicate t = RDFType) (tripleList ts))))))
              = declared OWLTransitiveProperty (set (tripleList ts))"
    using assms(2) by (auto simp: mapOrder_ok_def declared_def)
  show ?thesis
    using assms(1) transLoop[OF assms(1)] keys
    by (simp add: TransitivePropertyInference_Apply_def wf_Find forEach_Some Let_def) blast
qed

lemma Apply_SymmetricPropertyInference:
  assumes "wf_store ts" and "mapOrder_ok ord"
  shows "\<exists>xs. SymmetricPropertyInference_Apply ord ts = Some xs \<and>
              set xs = {t \<in> derive SymmetricPropertyInference (set (tripleList ts)). \<not> Contains ts t}"
proof -
  have keys: "set (ord (remdups (map Subject (filter (\<lambda>t. Object t = OWLSymmetricProperty)
                 (filter (\<lambda>t. Predicate t = RDFType) (tripleList ts))))))
              = declared OWLSymmetricProperty (set (tripleList ts))"
    using assms(2) by (auto simp: mapOrder_ok_def declared_def)
  show ?thesis
    using assms(1) symLoop[OF assms(1)] keys
    by (simp add: SymmetricPropertyInference_Apply_def wf_Find forEach_Some Let_def) blast
qed

lemma Apply_derive:
  assumes "wf_store ts" and "mapOrder_ok ord"
  shows "\<exists>xs. Apply ord r ts = Some xs \<and>
              set xs = {t \<in> derive r (set (tripleList ts)). \<not> Contains ts t}"
proof (cases r)
  case SubClassTransitivity
  then show ?thesis using Apply_SubClassTransitivity[OF assms(1)] by simp
next
  case TypeInheritance
  then show ?thesis using Apply_TypeInheritance[OF assms(1)] by simp
next
  case DomainInference
  then show ?thesis using Apply_DomainInference[OF assms(1)] by simp
next
  case RangeInference
  then show ?thesis using Apply_RangeInference[OF assms(1)] by simp
next
  case SubPropertyTransitivity
  then show ?thesis using Apply_SubPropertyTransitivity[OF assms(1)] by simp
next
  case SubPropertyInheritance
  then show ?thesis using Apply_SubPropertyInheritance[OF assms(1)] by simp
next
  case EquivalentClassSymmetry
  then show ?thesis using Apply_EquivalentClassSymmetry[OF assms(1)] by simp
next
  case EquivalentClassTransitivity
  then show ?thesis using Apply_EquivalentClassTransitivity[OF assms(1)] by simp
next
  case SameAsSymmetry
  then show ?thesis using Apply_SameAsSymmetry[OF assms(1)] by simp
next
  case SameAsTransitivity
  then show ?thesis using Apply_SameAsTransitivity[OF assms(1)] by simp
next
  case InversePropertyInference
  then show ?thesis using Apply_InversePropertyInference[OF assms(1)] by simp
next
  case TransitivePropertyInference
  then show ?thesis using Apply_TransitivePropertyInference[OF assms] by simp
next
  case SymmetricPropertyInference
  then show ?thesis using Apply_SymmetricPropertyInference[OF assms] by simp
qed

definition termsOf :: "Triple set \<Rightarrow> string set" where
  "termsOf S = (\<Union>t\<in>S. {Subject t, Predicate t, Object t})"

definition tripleSpace :: "string set \<Rightarrow> Triple set" where
  "tripleSpace U = {t. Subject t \<in> U \<and> Predicate t \<in> U \<and> Object t \<in> U}"

lemma termsOf_mono: "S \<subseteq> S' \<Longrightarrow> termsOf S \<subseteq> termsOf S'"
  by (auto simp: termsOf_def)

lemma termsOf_Un: "termsOf (A \<union> B) = termsOf A \<union> termsOf B"
  by (auto simp: termsOf_def)

lemma finite_termsOf: "finite S \<Longrightarrow> finite (termsOf S)"
  by (simp add: termsOf_def)

lemma in_tripleSpace: "S \<subseteq> tripleSpace (termsOf S)"
  by (auto simp: termsOf_def tripleSpace_def)

lemma tripleSpace_iff: "S \<subseteq> tripleSpace U \<longleftrightarrow> termsOf S \<subseteq> U"
  by (auto simp: termsOf_def tripleSpace_def)

lemma finite_tripleSpace:
  assumes "finite U" shows "finite (tripleSpace U)"
proof -
  have "tripleSpace U \<subseteq> (\<lambda>(s, p, ob). \<lparr>Subject = s, Predicate = p, Object = ob\<rparr>) ` (U \<times> U \<times> U)"
  proof
    fix t :: Triple
    assume "t \<in> tripleSpace U"
    then have "(Subject t, Predicate t, Object t) \<in> U \<times> U \<times> U"
      by (simp add: tripleSpace_def)
    moreover have "t = (\<lambda>(s, p, ob). \<lparr>Subject = s, Predicate = p, Object = ob\<rparr>) (Subject t, Predicate t, Object t)"
      by simp
    ultimately show "t \<in> (\<lambda>(s, p, ob). \<lparr>Subject = s, Predicate = p, Object = ob\<rparr>) ` (U \<times> U \<times> U)"
      by (rule rev_image_eqI)
  qed
  moreover have "finite ((\<lambda>(s, p, ob). \<lparr>Subject = s, Predicate = p, Object = ob\<rparr>) ` (U \<times> U \<times> U))"
    using assms by simp
  ultimately show ?thesis by (rule finite_subset)
qed

lemma tripleSpace_mono: "U \<subseteq> V \<Longrightarrow> tripleSpace U \<subseteq> tripleSpace V"
  by (auto simp: tripleSpace_def)

lemma transStep_terms: "p \<in> termsOf S \<Longrightarrow> transStep p S \<subseteq> tripleSpace (termsOf S)"
  by (auto simp: transStep_def tripleSpace_def termsOf_def)

lemma symStep_terms: "p \<in> termsOf S \<Longrightarrow> symStep p S \<subseteq> tripleSpace (termsOf S)"
  by (auto simp: symStep_def tripleSpace_def termsOf_def)

lemma transStep_pred: "t \<in> transStep p S \<Longrightarrow> p \<in> termsOf S"
  by (auto simp: transStep_def termsOf_def)

lemma symStep_pred: "t \<in> symStep p S \<Longrightarrow> p \<in> termsOf S"
  by (auto simp: symStep_def termsOf_def)

lemma transStep_terms': "transStep p S \<subseteq> tripleSpace (insert RDFType (termsOf S))"
  using transStep_terms[of p S] transStep_pred[of _ p S] tripleSpace_mono[of "termsOf S" "insert RDFType (termsOf S)"]
  by blast

lemma symStep_terms': "symStep p S \<subseteq> tripleSpace (insert RDFType (termsOf S))"
  using symStep_terms[of p S] symStep_pred[of _ p S] tripleSpace_mono[of "termsOf S" "insert RDFType (termsOf S)"]
  by blast

lemma derive_terms: "derive r S \<subseteq> tripleSpace (insert RDFType (termsOf S))"
proof (cases r)
  case TypeInheritance
  then show ?thesis by (auto simp: tripleSpace_def termsOf_def)
next
  case DomainInference
  then show ?thesis by (auto simp: tripleSpace_def termsOf_def)
next
  case RangeInference
  then show ?thesis by (auto simp: tripleSpace_def termsOf_def)
next
  case SubPropertyInheritance
  then show ?thesis by (auto simp: tripleSpace_def termsOf_def)
next
  case InversePropertyInference
  then show ?thesis by (auto simp: tripleSpace_def termsOf_def)
next
  case TransitivePropertyInference
  then show ?thesis using transStep_terms'[of _ S] by auto
next
  case SymmetricPropertyInference
  then show ?thesis using symStep_terms'[of _ S] by auto
qed (simp_all add: transStep_terms' symStep_terms')

section \<open>Rounds and the fixed point\<close>

lemma Add_cases:
  assumes "wf_store ts"
  shows "(Contains ts t \<and> Add ts t = (False, ts)) \<or>
         (\<not> Contains ts t \<and> (\<exists>ts'. Add ts t = (True, ts') \<and> wf_store ts' \<and>
             tripleList ts' = tripleList ts @ [t] \<and> Contains ts' t))"
proof (cases "Contains ts t")
  case True
  then show ?thesis by (simp add: Add_def Contains_def)
next
  case False
  have w: "wf_store (snd (Add ts t))" using assms by (rule wf_Add)
  have l: "tripleList (snd (Add ts t)) = tripleList ts @ [t]"
    using False by (simp add: Add_list Contains_def)
  have f: "fst (Add ts t) = True" using False by (simp add: Add_def Contains_def Let_def)
  have c: "Contains (snd (Add ts t)) t" using w l by (simp add: wf_Contains)
  show ?thesis using False w l f c by (cases "Add ts t") auto
qed

lemma Contains_mono:
  "wf_store ts \<Longrightarrow> wf_store ts' \<Longrightarrow> tripleList ts' = tripleList ts @ news \<Longrightarrow>
   Contains ts x \<Longrightarrow> Contains ts' x"
  by (auto simp: wf_Contains)

lemma addInferred_spec:
  assumes "wf_store ts"
  shows "\<exists>ts' news. addInferred ts xs n = (ts', n + length news) \<and> wf_store ts' \<and>
           tripleList ts' = tripleList ts @ news \<and> set news \<subseteq> set xs \<and>
           (\<forall>x\<in>set xs. Contains ts' x) \<and> (news = [] \<longrightarrow> ts' = ts)"
  using assms
proof (induction xs arbitrary: ts n)
  case Nil
  then show ?case by simp
next
  case (Cons x xs)
  from Add_cases[OF Cons.prems, of x] show ?case
  proof
    assume a: "Contains ts x \<and> Add ts x = (False, ts)"
    from Cons.IH[OF Cons.prems, of n] obtain ts' news where
      h: "addInferred ts xs n = (ts', n + length news)" "wf_store ts'"
         "tripleList ts' = tripleList ts @ news" "set news \<subseteq> set xs"
         "\<forall>x\<in>set xs. Contains ts' x" "news = [] \<longrightarrow> ts' = ts"
      by blast
    have "Contains ts' x" using Contains_mono[OF Cons.prems h(2) h(3)] a by simp
    with a h show ?thesis by (intro exI[of _ ts'] exI[of _ news]) auto
  next
    assume "\<not> Contains ts x \<and> (\<exists>ts'. Add ts x = (True, ts') \<and> wf_store ts' \<and>
             tripleList ts' = tripleList ts @ [x] \<and> Contains ts' x)"
    then obtain ts1 where a: "Add ts x = (True, ts1)" "wf_store ts1"
        "tripleList ts1 = tripleList ts @ [x]" "Contains ts1 x" by blast
    from Cons.IH[OF a(2), of "n + 1"] obtain ts' news where
      h: "addInferred ts1 xs (n + 1) = (ts', n + 1 + length news)" "wf_store ts'"
         "tripleList ts' = tripleList ts1 @ news" "set news \<subseteq> set xs"
         "\<forall>x\<in>set xs. Contains ts' x" "news = [] \<longrightarrow> ts' = ts1"
      by blast
    have "Contains ts' x" using Contains_mono[OF a(2) h(2) h(3)] a(4) by simp
    with a h show ?thesis by (intro exI[of _ ts'] exI[of _ "x # news"]) auto
  qed
qed

definition quiet :: "Rule list \<Rightarrow> TripleStore \<Rightarrow> bool" where
  "quiet rs ts = (\<forall>r\<in>set rs. \<forall>t\<in>derive r (set (tripleList ts)). Contains ts t)"

text \<open>A set of triples that contains whatever a rule concludes from triples in it.\<close>

definition derive_closed :: "Triple set \<Rightarrow> bool" where
  "derive_closed M = (\<forall>r S. S \<subseteq> M \<longrightarrow> derive r S \<subseteq> M)"

lemma derive_closed_tripleSpace:
  assumes "RDFType \<in> U"
  shows "derive_closed (tripleSpace U)"
  unfolding derive_closed_def
proof (intro allI impI)
  fix r S
  assume "S \<subseteq> tripleSpace U"
  then have "termsOf S \<subseteq> U" by (simp add: tripleSpace_iff)
  then have "insert RDFType (termsOf S) \<subseteq> U" using assms by simp
  then show "derive r S \<subseteq> tripleSpace U"
    using derive_terms[of r S] tripleSpace_mono by blast
qed

lemma applyRules_spec:
  assumes "mapOrder_ok ord" and "derive_closed M"
  shows "wf_store ts \<Longrightarrow> set (tripleList ts) \<subseteq> M \<Longrightarrow>
         \<exists>ts' news. applyRules ord rs ts n = Some (ts', n + length news) \<and> wf_store ts' \<and>
           tripleList ts' = tripleList ts @ news \<and> set (tripleList ts') \<subseteq> M \<and>
           (news = [] \<longrightarrow> ts' = ts \<and> quiet rs ts) \<and> (quiet rs ts \<longrightarrow> news = [])"
proof (induction rs arbitrary: ts n)
  case Nil
  then show ?case by (simp add: quiet_def)
next
  case (Cons r rs)
  let ?L = "tripleList ts"
  from Apply_derive[OF Cons.prems(1) assms(1), of r] obtain xs where
    xs: "Apply ord r ts = Some xs" "set xs = {t \<in> derive r (set ?L). \<not> Contains ts t}"
    by blast
  from addInferred_spec[OF Cons.prems(1), of xs n] obtain ts1 news1 where
    a: "addInferred ts xs n = (ts1, n + length news1)" "wf_store ts1"
       "tripleList ts1 = ?L @ news1" "set news1 \<subseteq> set xs"
       "\<forall>x\<in>set xs. Contains ts1 x" "news1 = [] \<longrightarrow> ts1 = ts"
    by blast
  have "derive r (set ?L) \<subseteq> M"
    using assms(2) Cons.prems(2) by (simp add: derive_closed_def)
  then have sub1: "set (tripleList ts1) \<subseteq> M"
    using a(3,4) xs(2) Cons.prems(2) by auto
  from Cons.IH[OF a(2) sub1, of "n + length news1"] obtain ts' news where
    h: "applyRules ord rs ts1 (n + length news1) = Some (ts', n + length news1 + length news)"
       "wf_store ts'" "tripleList ts' = tripleList ts1 @ news"
       "set (tripleList ts') \<subseteq> M"
       "news = [] \<longrightarrow> ts' = ts1 \<and> quiet rs ts1" "quiet rs ts1 \<longrightarrow> news = []"
    by blast
  have xs_empty: "xs = [] \<longleftrightarrow> news1 = []"
  proof
    assume "xs = []" then show "news1 = []" using a(4) by simp
  next
    assume n1: "news1 = []"
    show "xs = []"
    proof (rule ccontr)
      assume "xs \<noteq> []"
      then obtain x where x: "x \<in> set xs" by (cases xs) auto
      then have "Contains ts1 x" using a(5) by blast
      moreover have "ts1 = ts" using a(6) n1 by simp
      ultimately show False using x xs(2) by simp
    qed
  qed
  have "xs = [] \<longleftrightarrow> set xs = {}" by simp
  then have q: "quiet (r # rs) ts \<longleftrightarrow> xs = [] \<and> quiet rs ts"
    unfolding xs(2) by (auto simp: quiet_def)
  have r1: "applyRules ord (r # rs) ts n = Some (ts', n + length (news1 @ news))"
    using xs(1) a(1) h(1) by (simp add: add.assoc)
  have r2: "tripleList ts' = ?L @ (news1 @ news)" using a(3) h(3) by simp
  have r3: "news1 @ news = [] \<longrightarrow> ts' = ts \<and> quiet (r # rs) ts"
    using h(5) a(6) xs_empty q by auto
  have r4: "quiet (r # rs) ts \<longrightarrow> news1 @ news = []"
    using q xs_empty a(6) h(6) by auto
  show ?case using r1 r2 r3 r4 h(2) h(4) by blast
qed

lemma wf_length_bound:
  assumes "wf_store ts" and "set (tripleList ts) \<subseteq> M" and "finite M"
  shows "length (tripleList ts) \<le> card M"
proof -
  have "distinct (map tripleKey (tripleList ts))" using assms(1) by (simp add: wf_store_def)
  then have "distinct (tripleList ts)" by (simp add: distinct_map)
  then have "length (tripleList ts) = card (set (tripleList ts))"
    by (simp add: distinct_card)
  also have "\<dots> \<le> card M"
    using assms(2) assms(3) by (rule card_mono[rotated])
  finally show ?thesis .
qed

lemma reasoningLoop_spec:
  assumes "mapOrder_ok ord" and "finite M" and "derive_closed M"
  shows "wf_store ts \<Longrightarrow> set (tripleList ts) \<subseteq> M \<Longrightarrow>
         \<exists>ts' news. reasoningLoop ord rs ts tot = Some (tot + length news, ts') \<and>
           wf_store ts' \<and> tripleList ts' = tripleList ts @ news \<and>
           set (tripleList ts') \<subseteq> M \<and> quiet rs ts'"
proof (induction "card M - length (tripleList ts)" arbitrary: ts tot rule: less_induct)
  case less
  from applyRules_spec[OF assms(1,3) less.prems, of rs 0] obtain ts1 news1 where
    a: "applyRules ord rs ts 0 = Some (ts1, 0 + length news1)" "wf_store ts1"
       "tripleList ts1 = tripleList ts @ news1" "set (tripleList ts1) \<subseteq> M"
       "news1 = [] \<longrightarrow> ts1 = ts \<and> quiet rs ts" "quiet rs ts \<longrightarrow> news1 = []"
    by blast
  show ?case
  proof (cases "news1 = []")
    case True
    then have "reasoningLoop ord rs ts tot = Some (tot + length news1, ts1)"
      using a(1) by (subst reasoningLoop.simps) simp
    then show ?thesis using a True by (intro exI[of _ ts1] exI[of _ news1]) auto
  next
    case False
    have b: "length (tripleList ts1) \<le> card M"
      using wf_length_bound[OF a(2) a(4) assms(2)] .
    have "length (tripleList ts) < length (tripleList ts1)" using a(3) False by simp
    then have m: "card M - length (tripleList ts1)
                < card M - length (tripleList ts)"
      using b by linarith
    from less.hyps[OF m a(2) a(4), of "tot + length news1"] obtain ts' news where
      h: "reasoningLoop ord rs ts1 (tot + length news1) = Some (tot + length news1 + length news, ts')"
         "wf_store ts'" "tripleList ts' = tripleList ts1 @ news"
         "set (tripleList ts') \<subseteq> M" "quiet rs ts'"
      by blast
    have "reasoningLoop ord rs ts tot = Some (tot + length (news1 @ news), ts')"
      using a(1) False h(1) by (subst reasoningLoop.simps) (simp add: add.assoc)
    moreover have "tripleList ts' = tripleList ts @ (news1 @ news)" using a(3) h(3) by simp
    ultimately show ?thesis using h(2,4,5) by blast
  qed
qed

section \<open>Running the reasoner from a store built by \<open>Add\<close>\<close>

lemma wf_loadTriples: "wf_store ts \<Longrightarrow> wf_store (loadTriples ts xs)"
  by (induction xs arbitrary: ts) (auto simp: wf_Add)

lemma loadTriples_subset:
  "set (tripleList (loadTriples ts xs)) \<subseteq> set (tripleList ts) \<union> set xs"
proof (induction xs arbitrary: ts)
  case Nil
  then show ?case by simp
next
  case (Cons x xs)
  have "set (tripleList (snd (Add ts x))) \<subseteq> set (tripleList ts) \<union> {x}"
    by (auto simp: Add_list)
  then show ?case using Cons[of "snd (Add ts x)"] by auto
qed

lemma loadTriples_append: "loadTriples ts (xs @ ys) = loadTriples (loadTriples ts xs) ys"
  by (induction xs arbitrary: ts) auto

lemma wf_loaded: "wf_store (loadTriples NewTripleStore facts)"
  by (rule wf_loadTriples) (rule wf_NewTripleStore)

lemma reasoningLoop_from:
  assumes "mapOrder_ok ord" and "wf_store ts"
  shows "\<exists>ts' news. reasoningLoop ord rs ts tot = Some (tot + length news, ts') \<and>
           wf_store ts' \<and> tripleList ts' = tripleList ts @ news \<and>
           termsOf (set (tripleList ts')) \<subseteq> insert RDFType (termsOf (set (tripleList ts))) \<and>
           quiet rs ts'"
proof -
  let ?U = "insert RDFType (termsOf (set (tripleList ts)))"
  have f: "finite ?U" by (simp add: finite_termsOf)
  have s: "set (tripleList ts) \<subseteq> tripleSpace ?U"
    using in_tripleSpace[of "set (tripleList ts)"] tripleSpace_mono[of "termsOf (set (tripleList ts))" ?U]
    by blast
  have f': "finite (tripleSpace ?U)" using f by (rule finite_tripleSpace)
  have t: "derive_closed (tripleSpace ?U)" by (rule derive_closed_tripleSpace) simp
  from reasoningLoop_spec[OF assms(1) f' t assms(2) s, of rs tot] obtain ts' news where
    h: "reasoningLoop ord rs ts tot = Some (tot + length news, ts')" "wf_store ts'"
       "tripleList ts' = tripleList ts @ news" "set (tripleList ts') \<subseteq> tripleSpace ?U"
       "quiet rs ts'"
    by blast
  have "termsOf (set (tripleList ts')) \<subseteq> ?U" using h(4) by (simp add: tripleSpace_iff)
  with h show ?thesis by blast
qed

lemma quiet_round:
  assumes "mapOrder_ok ord" and "wf_store ts" and "quiet rs ts"
  shows "applyRules ord rs ts n = Some (ts, n)"
proof -
  let ?U = "insert RDFType (termsOf (set (tripleList ts)))"
  have s: "set (tripleList ts) \<subseteq> tripleSpace ?U"
    using in_tripleSpace[of "set (tripleList ts)"] tripleSpace_mono[of "termsOf (set (tripleList ts))" ?U]
    by blast
  have t: "derive_closed (tripleSpace ?U)" by (rule derive_closed_tripleSpace) simp
  from applyRules_spec[OF assms(1) t assms(2) s, of rs n] obtain ts' news where
    h: "applyRules ord rs ts n = Some (ts', n + length news)" "wf_store ts'"
       "tripleList ts' = tripleList ts @ news" "set (tripleList ts') \<subseteq> tripleSpace ?U"
       "news = [] \<longrightarrow> ts' = ts \<and> quiet rs ts" "quiet rs ts \<longrightarrow> news = []"
    by blast
  then show ?thesis using assms(3) by simp
qed

lemma quiet_loop:
  assumes "mapOrder_ok ord" and "wf_store ts" and "quiet rs ts"
  shows "reasoningLoop ord rs ts tot = Some (tot, ts)"
  using quiet_round[OF assms, of 0] by (subst reasoningLoop.simps) simp

lemma proposals_terms:
  assumes "mapOrder_ok ord" and "wf_store ts" and "Apply ord r ts = Some xs"
  shows "termsOf (set xs) \<subseteq> insert RDFType (termsOf (set (tripleList ts)))"
proof -
  from Apply_derive[OF assms(2) assms(1), of r] assms(3)
  have "set xs \<subseteq> derive r (set (tripleList ts))" by auto
  then have "set xs \<subseteq> tripleSpace (insert RDFType (termsOf (set (tripleList ts))))"
    using derive_terms[of r "set (tripleList ts)"] by blast
  then show ?thesis by (simp add: tripleSpace_iff)
qed

lemma mapOrder_ok_rev: "mapOrder_ok rev"
  by (simp add: mapOrder_ok_def)

lemma LoadTurtle_wf:
  assumes "LoadTurtle r content = Inr r'" and "wf_store (store r)"
  shows "wf_store (store r')"
  using assms wf_loadTriples[of "store r"]
  by (auto simp: LoadTurtle_def split: sum.splits)

lemma wf_run:
  assumes "mapOrder_ok ord" and "wf_store (store r)"
  shows "\<exists>n r'. RunForwardReasoning ord r = Some (n, r') \<and> Size (store r) + n = Size (store r')"
proof -
  from reasoningLoop_from[OF assms, of "rules r" 0] obtain ts' news where
    h: "reasoningLoop ord (rules r) (store r) 0 = Some (0 + length news, ts')"
       "tripleList ts' = tripleList (store r) @ news"
    by blast
  then show ?thesis by (simp add: RunForwardReasoning_def Size_def)
qed

lemma length_GetAllTriples: "length (GetAllTriples r) = Size (store r)"
  by (simp add: GetAllTriples_def All_def Size_def)

lemmas store_eval = loadTriples.simps Add_def NewTripleStore_def tripleKey_def Let_def
lemmas iri_defs = RDFType_def RDFSSubClassOf_def RDFSSubPropertyOf_def RDFSDomain_def RDFSRange_def
  OWLEquivalentClass_def OWLSameAs_def OWLInverseOf_def OWLTransitiveProperty_def
  OWLSymmetricProperty_def

lemma domain_store:
  "tripleList (loadTriples NewTripleStore
       [\<lparr>Subject = ''p'', Predicate = RDFSDomain, Object = ''C''\<rparr>,
        \<lparr>Subject = ''x'', Predicate = ''p'', Object = ''y''\<rparr>])
   = [\<lparr>Subject = ''p'', Predicate = RDFSDomain, Object = ''C''\<rparr>,
      \<lparr>Subject = ''x'', Predicate = ''p'', Object = ''y''\<rparr>]"
  by (simp add: store_eval)

lemma domain_eval:
  assumes "wf_store ts"
    and "tripleList ts = [\<lparr>Subject = ''p'', Predicate = RDFSDomain, Object = ''C''\<rparr>,
                         \<lparr>Subject = ''x'', Predicate = ''p'', Object = ''y''\<rparr>]"
  shows "DomainInference_Apply ts = Some [\<lparr>Subject = ''x'', Predicate = RDFType, Object = ''C''\<rparr>]"
  using assms
  by (simp add: DomainInference_Apply_def wf_Find wf_Contains forEach_Some tripleKey_def iri_defs)

lemma mapOrder_ok_id: "mapOrder_ok (\<lambda>ks. ks)"
  by (simp add: mapOrder_ok_def)

section \<open>The least model of the rule catalogue\<close>

text \<open>
  The least model of C1, written from the rule catalogue of the specification: the input
  facts, closed under the thirteen rules with their side conditions (the reflexive
  conclusions suppressed, a literal never typed by the range rule).
\<close>

inductive_set least_model :: "Triple set \<Rightarrow> Triple set" for facts :: "Triple set" where
  input: "t \<in> facts \<Longrightarrow> t \<in> least_model facts"
| subClassOf_transitivity:
    "\<lparr>Subject = a, Predicate = RDFSSubClassOf, Object = b\<rparr> \<in> least_model facts \<Longrightarrow>
     \<lparr>Subject = b, Predicate = RDFSSubClassOf, Object = c\<rparr> \<in> least_model facts \<Longrightarrow>
     a \<noteq> c \<Longrightarrow>
     \<lparr>Subject = a, Predicate = RDFSSubClassOf, Object = c\<rparr> \<in> least_model facts"
| type_inheritance:
    "\<lparr>Subject = x, Predicate = RDFType, Object = a\<rparr> \<in> least_model facts \<Longrightarrow>
     \<lparr>Subject = a, Predicate = RDFSSubClassOf, Object = b\<rparr> \<in> least_model facts \<Longrightarrow>
     \<lparr>Subject = x, Predicate = RDFType, Object = b\<rparr> \<in> least_model facts"
| domain_inference:
    "\<lparr>Subject = p, Predicate = RDFSDomain, Object = c\<rparr> \<in> least_model facts \<Longrightarrow>
     \<lparr>Subject = x, Predicate = p, Object = y\<rparr> \<in> least_model facts \<Longrightarrow>
     \<lparr>Subject = x, Predicate = RDFType, Object = c\<rparr> \<in> least_model facts"
| range_inference:
    "\<lparr>Subject = p, Predicate = RDFSRange, Object = c\<rparr> \<in> least_model facts \<Longrightarrow>
     \<lparr>Subject = x, Predicate = p, Object = y\<rparr> \<in> least_model facts \<Longrightarrow>
     \<not> isLiteral y \<Longrightarrow>
     \<lparr>Subject = y, Predicate = RDFType, Object = c\<rparr> \<in> least_model facts"
| subPropertyOf_transitivity:
    "\<lparr>Subject = a, Predicate = RDFSSubPropertyOf, Object = b\<rparr> \<in> least_model facts \<Longrightarrow>
     \<lparr>Subject = b, Predicate = RDFSSubPropertyOf, Object = c\<rparr> \<in> least_model facts \<Longrightarrow>
     a \<noteq> c \<Longrightarrow>
     \<lparr>Subject = a, Predicate = RDFSSubPropertyOf, Object = c\<rparr> \<in> least_model facts"
| subPropertyOf_inheritance:
    "\<lparr>Subject = p1, Predicate = RDFSSubPropertyOf, Object = p2\<rparr> \<in> least_model facts \<Longrightarrow>
     \<lparr>Subject = x, Predicate = p1, Object = y\<rparr> \<in> least_model facts \<Longrightarrow>
     \<lparr>Subject = x, Predicate = p2, Object = y\<rparr> \<in> least_model facts"
| equivalentClass_symmetry:
    "\<lparr>Subject = a, Predicate = OWLEquivalentClass, Object = b\<rparr> \<in> least_model facts \<Longrightarrow>
     \<lparr>Subject = b, Predicate = OWLEquivalentClass, Object = a\<rparr> \<in> least_model facts"
| equivalentClass_transitivity:
    "\<lparr>Subject = a, Predicate = OWLEquivalentClass, Object = b\<rparr> \<in> least_model facts \<Longrightarrow>
     \<lparr>Subject = b, Predicate = OWLEquivalentClass, Object = c\<rparr> \<in> least_model facts \<Longrightarrow>
     a \<noteq> c \<Longrightarrow>
     \<lparr>Subject = a, Predicate = OWLEquivalentClass, Object = c\<rparr> \<in> least_model facts"
| sameAs_symmetry:
    "\<lparr>Subject = a, Predicate = OWLSameAs, Object = b\<rparr> \<in> least_model facts \<Longrightarrow>
     \<lparr>Subject = b, Predicate = OWLSameAs, Object = a\<rparr> \<in> least_model facts"
| sameAs_transitivity:
    "\<lparr>Subject = a, Predicate = OWLSameAs, Object = b\<rparr> \<in> least_model facts \<Longrightarrow>
     \<lparr>Subject = b, Predicate = OWLSameAs, Object = c\<rparr> \<in> least_model facts \<Longrightarrow>
     a \<noteq> c \<Longrightarrow>
     \<lparr>Subject = a, Predicate = OWLSameAs, Object = c\<rparr> \<in> least_model facts"
| inverseOf_forward:
    "\<lparr>Subject = p1, Predicate = OWLInverseOf, Object = p2\<rparr> \<in> least_model facts \<Longrightarrow>
     \<lparr>Subject = x, Predicate = p1, Object = y\<rparr> \<in> least_model facts \<Longrightarrow>
     \<lparr>Subject = y, Predicate = p2, Object = x\<rparr> \<in> least_model facts"
| inverseOf_backward:
    "\<lparr>Subject = p1, Predicate = OWLInverseOf, Object = p2\<rparr> \<in> least_model facts \<Longrightarrow>
     \<lparr>Subject = x, Predicate = p2, Object = y\<rparr> \<in> least_model facts \<Longrightarrow>
     \<lparr>Subject = y, Predicate = p1, Object = x\<rparr> \<in> least_model facts"
| transitive_property:
    "\<lparr>Subject = p, Predicate = RDFType, Object = OWLTransitiveProperty\<rparr> \<in> least_model facts \<Longrightarrow>
     \<lparr>Subject = x, Predicate = p, Object = y\<rparr> \<in> least_model facts \<Longrightarrow>
     \<lparr>Subject = y, Predicate = p, Object = z\<rparr> \<in> least_model facts \<Longrightarrow>
     x \<noteq> z \<Longrightarrow>
     \<lparr>Subject = x, Predicate = p, Object = z\<rparr> \<in> least_model facts"
| symmetric_property:
    "\<lparr>Subject = p, Predicate = RDFType, Object = OWLSymmetricProperty\<rparr> \<in> least_model facts \<Longrightarrow>
     \<lparr>Subject = x, Predicate = p, Object = y\<rparr> \<in> least_model facts \<Longrightarrow>
     \<lparr>Subject = y, Predicate = p, Object = x\<rparr> \<in> least_model facts"

definition noBar :: "Triple \<Rightarrow> bool" where
  "noBar t = (CHR ''|'' \<notin> set (Subject t) \<and> CHR ''|'' \<notin> set (Predicate t) \<and>
              CHR ''|'' \<notin> set (Object t))"

lemma split_at_bar:
  assumes "CHR ''|'' \<notin> set a" and "CHR ''|'' \<notin> set a'"
    and "a @ CHR ''|'' # r = a' @ CHR ''|'' # r'"
  shows "a = a' \<and> r = r'"
proof -
  have tw: "\<And>a r. CHR ''|'' \<notin> set a \<Longrightarrow> takeWhile (\<lambda>c. c \<noteq> CHR ''|'') (a @ CHR ''|'' # r) = a"
  proof -
    fix a :: string and r
    show "CHR ''|'' \<notin> set a \<Longrightarrow> takeWhile (\<lambda>c. c \<noteq> CHR ''|'') (a @ CHR ''|'' # r) = a"
      by (induction a) auto
  qed
  have "takeWhile (\<lambda>c. c \<noteq> CHR ''|'') (a @ CHR ''|'' # r) = a"
    using assms(1) by (rule tw)
  moreover have "takeWhile (\<lambda>c. c \<noteq> CHR ''|'') (a' @ CHR ''|'' # r') = a'"
    using assms(2) by (rule tw)
  ultimately have "a = a'" using assms(3) by simp
  then show ?thesis using assms(3) by simp
qed

lemma tripleKey_inj:
  assumes "noBar t" and "noBar t'" and "tripleKey t = tripleKey t'"
  shows "t = t'"
proof -
  have k: "Subject t @ CHR ''|'' # (Predicate t @ CHR ''|'' # Object t)
         = Subject t' @ CHR ''|'' # (Predicate t' @ CHR ''|'' # Object t')"
    using assms(3) by (simp add: tripleKey_def)
  have 1: "Subject t = Subject t'"
      "Predicate t @ CHR ''|'' # Object t = Predicate t' @ CHR ''|'' # Object t'"
    using split_at_bar[OF _ _ k] assms(1,2) by (simp_all add: noBar_def)
  have 2: "Predicate t = Predicate t'" "Object t = Object t'"
    using split_at_bar[OF _ _ 1(2)] assms(1,2) by (simp_all add: noBar_def)
  show ?thesis using 1(1) 2 by simp
qed

lemma transStep_least_model:
  assumes "S \<subseteq> least_model F"
    and step: "\<And>a b c. \<lparr>Subject = a, Predicate = p, Object = b\<rparr> \<in> least_model F \<Longrightarrow>
             \<lparr>Subject = b, Predicate = p, Object = c\<rparr> \<in> least_model F \<Longrightarrow> a \<noteq> c \<Longrightarrow>
             \<lparr>Subject = a, Predicate = p, Object = c\<rparr> \<in> least_model F"
  shows "transStep p S \<subseteq> least_model F"
proof
  fix t assume "t \<in> transStep p S"
  then obtain t1 t2 where h: "t = \<lparr>Subject = Subject t1, Predicate = p, Object = Object t2\<rparr>"
      "t1 \<in> S" "t2 \<in> S" "Predicate t1 = p" "Predicate t2 = p" "Subject t2 = Object t1"
      "Subject t1 \<noteq> Object t2"
    by (auto simp: transStep_def)
  have e1: "t1 = \<lparr>Subject = Subject t1, Predicate = p, Object = Object t1\<rparr>" using h(4) by simp
  have e2: "t2 = \<lparr>Subject = Object t1, Predicate = p, Object = Object t2\<rparr>" using h(5,6) by simp
  have "\<lparr>Subject = Subject t1, Predicate = p, Object = Object t1\<rparr> \<in> least_model F"
    using e1 h(2) assms(1) by auto
  moreover have "\<lparr>Subject = Object t1, Predicate = p, Object = Object t2\<rparr> \<in> least_model F"
    using e2 h(3) assms(1) by auto
  ultimately show "t \<in> least_model F" unfolding h(1) using h(7) by (rule step)
qed

lemma symStep_least_model:
  assumes "S \<subseteq> least_model F"
    and step: "\<And>a b. \<lparr>Subject = a, Predicate = p, Object = b\<rparr> \<in> least_model F \<Longrightarrow>
             \<lparr>Subject = b, Predicate = p, Object = a\<rparr> \<in> least_model F"
  shows "symStep p S \<subseteq> least_model F"
proof
  fix t assume "t \<in> symStep p S"
  then obtain t1 where h: "t = \<lparr>Subject = Object t1, Predicate = p, Object = Subject t1\<rparr>"
      "t1 \<in> S" "Predicate t1 = p"
    by (auto simp: symStep_def)
  have e1: "t1 = \<lparr>Subject = Subject t1, Predicate = p, Object = Object t1\<rparr>" using h(3) by simp
  have "\<lparr>Subject = Subject t1, Predicate = p, Object = Object t1\<rparr> \<in> least_model F"
    using e1 h(2) assms(1) by auto
  then show "t \<in> least_model F" unfolding h(1) by (rule step)
qed

lemma triple_eta: "(t::Triple) = \<lparr>Subject = Subject t, Predicate = Predicate t, Object = Object t\<rparr>"
  by simp

lemma in_lm: "S \<subseteq> least_model F \<Longrightarrow> t \<in> S \<Longrightarrow> Subject t = s \<Longrightarrow> Predicate t = p \<Longrightarrow>
   Object t = ob \<Longrightarrow> \<lparr>Subject = s, Predicate = p, Object = ob\<rparr> \<in> least_model F"
  by (cases t) auto

lemma derive_least_model:
  assumes "S \<subseteq> least_model F"
  shows "derive r S \<subseteq> least_model F"
proof (cases r)
  case SubClassTransitivity
  then show ?thesis
    using transStep_least_model[OF assms, of RDFSSubClassOf] least_model.subClassOf_transitivity
    by simp
next
  case TypeInheritance
  show ?thesis unfolding TypeInheritance derive.simps
  proof clarify
    fix t sc assume h: "t \<in> S" "sc \<in> S" "Predicate t = RDFType" "Predicate sc = RDFSSubClassOf"
      "Subject sc = Object t"
    show "\<lparr>Subject = Subject t, Predicate = RDFType, Object = Object sc\<rparr> \<in> least_model F"
      by (rule least_model.type_inheritance[where a="Object t"])
         (rule in_lm[OF assms h(1) refl h(3) refl], rule in_lm[OF assms h(2) h(5) h(4) refl])
  qed
next
  case DomainInference
  show ?thesis unfolding DomainInference derive.simps
  proof clarify
    fix dt t assume h: "dt \<in> S" "t \<in> S" "Predicate dt = RDFSDomain" "Predicate t = Subject dt"
    show "\<lparr>Subject = Subject t, Predicate = RDFType, Object = Object dt\<rparr> \<in> least_model F"
      by (rule least_model.domain_inference[where p="Subject dt" and y="Object t"])
         (rule in_lm[OF assms h(1) refl h(3) refl], rule in_lm[OF assms h(2) refl h(4) refl])
  qed
next
  case RangeInference
  show ?thesis unfolding RangeInference derive.simps
  proof clarify
    fix rt t assume h: "rt \<in> S" "t \<in> S" "Predicate rt = RDFSRange" "Predicate t = Subject rt"
      "\<not> isLiteral (Object t)"
    show "\<lparr>Subject = Object t, Predicate = RDFType, Object = Object rt\<rparr> \<in> least_model F"
      by (rule least_model.range_inference[where p="Subject rt" and x="Subject t"])
         (rule in_lm[OF assms h(1) refl h(3) refl], rule in_lm[OF assms h(2) refl h(4) refl],
          rule h(5))
  qed
next
  case SubPropertyTransitivity
  then show ?thesis
    using transStep_least_model[OF assms, of RDFSSubPropertyOf]
      least_model.subPropertyOf_transitivity
    by simp
next
  case SubPropertyInheritance
  show ?thesis unfolding SubPropertyInheritance derive.simps
  proof clarify
    fix sp t assume h: "sp \<in> S" "t \<in> S" "Predicate sp = RDFSSubPropertyOf"
      "Predicate t = Subject sp"
    show "\<lparr>Subject = Subject t, Predicate = Object sp, Object = Object t\<rparr> \<in> least_model F"
      by (rule least_model.subPropertyOf_inheritance[where ?p1.0="Subject sp"])
         (rule in_lm[OF assms h(1) refl h(3) refl], rule in_lm[OF assms h(2) refl h(4) refl])
  qed
next
  case EquivalentClassSymmetry
  then show ?thesis
    using symStep_least_model[OF assms, of OWLEquivalentClass]
      least_model.equivalentClass_symmetry
    by simp
next
  case EquivalentClassTransitivity
  then show ?thesis
    using transStep_least_model[OF assms, of OWLEquivalentClass]
      least_model.equivalentClass_transitivity
    by simp
next
  case SameAsSymmetry
  then show ?thesis
    using symStep_least_model[OF assms, of OWLSameAs] least_model.sameAs_symmetry by simp
next
  case SameAsTransitivity
  then show ?thesis
    using transStep_least_model[OF assms, of OWLSameAs] least_model.sameAs_transitivity by simp
next
  case InversePropertyInference
  show ?thesis unfolding InversePropertyInference derive.simps
  proof (rule Un_least; clarify)
    fix inv t assume h: "inv \<in> S" "t \<in> S" "Predicate inv = OWLInverseOf"
      "Predicate t = Subject inv"
    show "\<lparr>Subject = Object t, Predicate = Object inv, Object = Subject t\<rparr> \<in> least_model F"
      by (rule least_model.inverseOf_forward[where ?p1.0="Subject inv"])
         (rule in_lm[OF assms h(1) refl h(3) refl], rule in_lm[OF assms h(2) refl h(4) refl])
  next
    fix inv t assume h: "inv \<in> S" "t \<in> S" "Predicate inv = OWLInverseOf"
      "Predicate t = Object inv"
    show "\<lparr>Subject = Object t, Predicate = Subject inv, Object = Subject t\<rparr> \<in> least_model F"
      by (rule least_model.inverseOf_backward[where ?p2.0="Object inv"])
         (rule in_lm[OF assms h(1) refl h(3) refl], rule in_lm[OF assms h(2) refl h(4) refl])
  qed
next
  case TransitivePropertyInference
  have "transStep p S \<subseteq> least_model F" if "p \<in> declared OWLTransitiveProperty S" for p
  proof -
    from that obtain d where d: "d \<in> S" "Predicate d = RDFType"
        "Object d = OWLTransitiveProperty" "Subject d = p"
      by (auto simp: declared_def)
    have dp: "\<lparr>Subject = p, Predicate = RDFType, Object = OWLTransitiveProperty\<rparr> \<in> least_model F"
      by (rule in_lm[OF assms d(1) d(4) d(2) d(3)])
    show ?thesis
      by (rule transStep_least_model[OF assms]) (rule least_model.transitive_property[OF dp])
  qed
  then show ?thesis unfolding TransitivePropertyInference derive.simps by blast
next
  case SymmetricPropertyInference
  have "symStep p S \<subseteq> least_model F" if "p \<in> declared OWLSymmetricProperty S" for p
  proof -
    from that obtain d where d: "d \<in> S" "Predicate d = RDFType"
        "Object d = OWLSymmetricProperty" "Subject d = p"
      by (auto simp: declared_def)
    have dp: "\<lparr>Subject = p, Predicate = RDFType, Object = OWLSymmetricProperty\<rparr> \<in> least_model F"
      by (rule in_lm[OF assms d(1) d(4) d(2) d(3)])
    show ?thesis
      by (rule symStep_least_model[OF assms]) (rule least_model.symmetric_property[OF dp])
  qed
  then show ?thesis unfolding SymmetricPropertyInference derive.simps by blast
qed

lemma transStep_intro:
  "\<lparr>Subject = a, Predicate = p, Object = b\<rparr> \<in> S \<Longrightarrow>
   \<lparr>Subject = b, Predicate = p, Object = c\<rparr> \<in> S \<Longrightarrow> a \<noteq> c \<Longrightarrow>
   \<lparr>Subject = a, Predicate = p, Object = c\<rparr> \<in> transStep p S"
  unfolding transStep_def by force

lemma symStep_intro:
  "\<lparr>Subject = a, Predicate = p, Object = b\<rparr> \<in> S \<Longrightarrow>
   \<lparr>Subject = b, Predicate = p, Object = a\<rparr> \<in> symStep p S"
  unfolding symStep_def by force

lemma declared_intro:
  "\<lparr>Subject = p, Predicate = RDFType, Object = c\<rparr> \<in> S \<Longrightarrow> p \<in> declared c S"
  unfolding declared_def by force

lemma least_model_least:
  assumes "F \<subseteq> S" and closed: "\<And>r. derive r S \<subseteq> S"
  shows "least_model F \<subseteq> S"
proof
  fix t assume "t \<in> least_model F"
  then show "t \<in> S"
  proof (induction rule: least_model.induct)
    case (input t)
    then show ?case using assms(1) by blast
  next
    case (subClassOf_transitivity a b c)
    then show ?case using closed[of SubClassTransitivity] transStep_intro[of a _ b S c] by auto
  next
    case (type_inheritance x a b)
    have "\<lparr>Subject = x, Predicate = RDFType, Object = b\<rparr> \<in> derive TypeInheritance S"
      using type_inheritance.IH by force
    then show ?case using closed[of TypeInheritance] by blast
  next
    case (domain_inference p c x y)
    have "\<lparr>Subject = x, Predicate = RDFType, Object = c\<rparr> \<in> derive DomainInference S"
      using domain_inference.IH by force
    then show ?case using closed[of DomainInference] by blast
  next
    case (range_inference p c x y)
    have "\<lparr>Subject = y, Predicate = RDFType, Object = c\<rparr> \<in> derive RangeInference S"
      using range_inference.IH range_inference.hyps by force
    then show ?case using closed[of RangeInference] by blast
  next
    case (subPropertyOf_transitivity a b c)
    then show ?case using closed[of SubPropertyTransitivity] transStep_intro[of a _ b S c] by auto
  next
    case (subPropertyOf_inheritance p1 p2 x y)
    have "\<lparr>Subject = x, Predicate = p2, Object = y\<rparr> \<in> derive SubPropertyInheritance S"
      using subPropertyOf_inheritance.IH by force
    then show ?case using closed[of SubPropertyInheritance] by blast
  next
    case (equivalentClass_symmetry a b)
    then show ?case using closed[of EquivalentClassSymmetry] symStep_intro[of a _ b S] by auto
  next
    case (equivalentClass_transitivity a b c)
    then show ?case
      using closed[of EquivalentClassTransitivity] transStep_intro[of a _ b S c] by auto
  next
    case (sameAs_symmetry a b)
    then show ?case using closed[of SameAsSymmetry] symStep_intro[of a _ b S] by auto
  next
    case (sameAs_transitivity a b c)
    then show ?case using closed[of SameAsTransitivity] transStep_intro[of a _ b S c] by auto
  next
    case (inverseOf_forward p1 p2 x y)
    have "\<lparr>Subject = y, Predicate = p2, Object = x\<rparr> \<in> derive InversePropertyInference S"
      using inverseOf_forward.IH by force
    then show ?case using closed[of InversePropertyInference] by blast
  next
    case (inverseOf_backward p1 p2 x y)
    have "\<lparr>Subject = y, Predicate = p1, Object = x\<rparr> \<in> derive InversePropertyInference S"
      using inverseOf_backward.IH by force
    then show ?case using closed[of InversePropertyInference] by blast
  next
    case (transitive_property p x y z)
    have "\<lparr>Subject = x, Predicate = p, Object = z\<rparr> \<in> derive TransitivePropertyInference S"
      using transitive_property.IH transitive_property.hyps
        transStep_intro[of x p y S z] declared_intro[of p OWLTransitiveProperty S]
      by auto
    then show ?case using closed[of TransitivePropertyInference] by blast
  next
    case (symmetric_property p x y)
    have "\<lparr>Subject = y, Predicate = p, Object = x\<rparr> \<in> derive SymmetricPropertyInference S"
      using symmetric_property.IH symStep_intro[of x p y S]
        declared_intro[of p OWLSymmetricProperty S]
      by auto
    then show ?case using closed[of SymmetricPropertyInference] by blast
  qed
qed

lemma DefaultRules_all: "r \<in> set DefaultRules"
  by (cases r) (simp_all add: DefaultRules_def)

lemma loadTriples_set:
  assumes "wf_store ts" and "\<forall>t\<in>set (tripleList ts) \<union> set xs. noBar t"
  shows "set (tripleList (loadTriples ts xs)) = set (tripleList ts) \<union> set xs"
  using assms
proof (induction xs arbitrary: ts)
  case Nil
  then show ?case by simp
next
  case (Cons x xs)
  from Add_cases[OF Cons.prems(1), of x]
  have s: "wf_store (snd (Add ts x)) \<and>
           set (tripleList (snd (Add ts x))) = set (tripleList ts) \<union> {x}"
  proof
    assume a: "Contains ts x \<and> Add ts x = (False, ts)"
    then obtain t' where t': "t' \<in> set (tripleList ts)" "tripleKey t' = tripleKey x"
      using Cons.prems(1) by (auto simp: wf_Contains)
    have "t' = x" using tripleKey_inj[OF _ _ t'(2)] t'(1) Cons.prems(2) by simp
    then show ?thesis using a t'(1) Cons.prems(1) by auto
  next
    assume "\<not> Contains ts x \<and> (\<exists>ts'. Add ts x = (True, ts') \<and> wf_store ts' \<and>
             tripleList ts' = tripleList ts @ [x] \<and> Contains ts' x)"
    then show ?thesis by auto
  qed
  have "\<forall>t\<in>set (tripleList (snd (Add ts x))) \<union> set xs. noBar t"
    using s Cons.prems(2) by auto
  then have "set (tripleList (loadTriples (snd (Add ts x)) xs))
               = set (tripleList (snd (Add ts x))) \<union> set xs"
    using Cons.IH[of "snd (Add ts x)"] s by blast
  then show ?case using s by auto
qed

lemma noBar_tripleSpace:
  assumes "\<forall>u\<in>U. CHR ''|'' \<notin> set u" and "t \<in> tripleSpace U"
  shows "noBar t"
  using assms by (auto simp: tripleSpace_def noBar_def)

text \<open>
  When no term of the input contains the character \<open>|\<close>, the keys of the store tell all
  triples apart, and \<open>RunForwardReasoning\<close> with the default rules returns and leaves in
  the store exactly the least model of the thirteen rules over the input facts.
\<close>

theorem closure_is_least_model:
  assumes "mapOrder_ok ord" and "\<forall>t\<in>set facts. noBar t"
  shows "\<exists>n r'. RunForwardReasoning ord
                   \<lparr>store = loadTriples NewTripleStore facts, rules = DefaultRules\<rparr>
                   = Some (n, r') \<and>
           set (All (store r')) = least_model (set facts)"
proof -
  let ?ts = "loadTriples NewTripleStore facts"
  let ?F = "set facts"
  let ?U = "insert RDFType (termsOf ?F)"
  let ?M = "tripleSpace ?U \<inter> least_model ?F"
  have nb: "\<forall>u\<in>?U. CHR ''|'' \<notin> set u"
    using assms(2) by (auto simp: termsOf_def noBar_def RDFType_def)
  have l0: "set (tripleList ?ts) = ?F"
    using loadTriples_set[OF wf_NewTripleStore, of facts] assms(2)
    by (simp add: NewTripleStore_def)
  have fin: "finite ?M" using finite_tripleSpace[of ?U] by (simp add: finite_termsOf)
  have cl: "derive_closed ?M"
    unfolding derive_closed_def
  proof (intro allI impI)
    fix r S assume "S \<subseteq> ?M"
    then have "S \<subseteq> tripleSpace ?U" "S \<subseteq> least_model ?F" by auto
    then have "derive r S \<subseteq> tripleSpace ?U" "derive r S \<subseteq> least_model ?F"
      using derive_closed_tripleSpace[of ?U] derive_least_model[of S ?F r]
      by (simp_all add: derive_closed_def)
    then show "derive r S \<subseteq> ?M" by blast
  qed
  have "?F \<subseteq> tripleSpace ?U"
    using in_tripleSpace[of ?F] tripleSpace_mono[of "termsOf ?F" ?U] by blast
  moreover have "?F \<subseteq> least_model ?F" by (auto intro: least_model.input)
  ultimately have s0: "set (tripleList ?ts) \<subseteq> ?M" using l0 by simp
  from reasoningLoop_spec[OF assms(1) fin cl wf_loaded s0, of DefaultRules 0] obtain ts' news where
    h: "reasoningLoop ord DefaultRules ?ts 0 = Some (0 + length news, ts')" "wf_store ts'"
       "tripleList ts' = tripleList ?ts @ news" "set (tripleList ts') \<subseteq> ?M"
       "quiet DefaultRules ts'"
    by blast
  let ?S = "set (tripleList ts')"
  have closed: "derive r ?S \<subseteq> ?S" for r
  proof
    fix t assume t: "t \<in> derive r ?S"
    then have "Contains ts' t" using h(5) DefaultRules_all[of r] by (simp add: quiet_def)
    then obtain t' where t': "t' \<in> ?S" "tripleKey t' = tripleKey t"
      using h(2) by (auto simp: wf_Contains)
    have "t \<in> ?M" using cl h(4) t by (auto simp: derive_closed_def)
    then have "noBar t" using noBar_tripleSpace[OF nb] by simp
    moreover have "noBar t'" using t'(1) h(4) noBar_tripleSpace[OF nb] by blast
    ultimately have "t' = t" using tripleKey_inj t'(2) by blast
    then show "t \<in> ?S" using t'(1) by simp
  qed
  have "?F \<subseteq> ?S" using l0 h(3) by auto
  then have "least_model ?F \<subseteq> ?S" using closed by (rule least_model_least)
  moreover have "?S \<subseteq> least_model ?F" using h(4) by simp
  ultimately have eq: "?S = least_model ?F" by blast
  have "RunForwardReasoning ord \<lparr>store = ?ts, rules = DefaultRules\<rparr>
          = Some (length news, \<lparr>store = ts', rules = DefaultRules\<rparr>)"
    using h(1) by (simp add: RunForwardReasoning_def)
  then show ?thesis using eq by (simp add: All_def)
qed

section \<open>The store: deduplication\<close>

text \<open>
  C3. The claim: every distinct triple, as a subject/predicate/object record, is reported
  new exactly once. The store tells triples apart by \<open>tripleKey\<close> only, and the key is
  not injective: after \<open>(a, b|c, d)\<close> the different triple \<open>(a|b, c, d)\<close> has the same
  key \<open>a|b|c|d\<close>, is reported as not new, and is not stored.
\<close>

theorem Add_key_collision:
  "fst (Add NewTripleStore \<lparr>Subject = ''a'', Predicate = ''b|c'', Object = ''d''\<rparr>) = True \<and>
   fst (Add (snd (Add NewTripleStore \<lparr>Subject = ''a'', Predicate = ''b|c'', Object = ''d''\<rparr>))
          \<lparr>Subject = ''a|b'', Predicate = ''c'', Object = ''d''\<rparr>) = False \<and>
   All (snd (Add (snd (Add NewTripleStore \<lparr>Subject = ''a'', Predicate = ''b|c'', Object = ''d''\<rparr>))
          \<lparr>Subject = ''a|b'', Predicate = ''c'', Object = ''d''\<rparr>))
     = [\<lparr>Subject = ''a'', Predicate = ''b|c'', Object = ''d''\<rparr>]"
  by (simp add: Add_def NewTripleStore_def tripleKey_def All_def Let_def)

section \<open>The closure\<close>

lemma collision_store:
  "tripleList (loadTriples NewTripleStore
       [\<lparr>Subject = ''a'', Predicate = OWLSameAs, Object = ''x|y''\<rparr>,
        \<lparr>Subject = ''x'', Predicate = ''y|'' @ OWLSameAs, Object = ''a''\<rparr>])
   = [\<lparr>Subject = ''a'', Predicate = OWLSameAs, Object = ''x|y''\<rparr>,
      \<lparr>Subject = ''x'', Predicate = ''y|'' @ OWLSameAs, Object = ''a''\<rparr>]"
  by (simp add: store_eval)

lemma collision_quiet:
  assumes "wf_store ts"
    and "tripleList ts =
          [\<lparr>Subject = ''a'', Predicate = OWLSameAs, Object = ''x|y''\<rparr>,
           \<lparr>Subject = ''x'', Predicate = ''y|'' @ OWLSameAs, Object = ''a''\<rparr>]"
  shows "quiet DefaultRules ts"
  unfolding quiet_def DefaultRules_def
  using assms
  by (auto simp: wf_Contains transStep_def symStep_def declared_def tripleKey_def iri_defs)

text \<open>
  C1. The claim: the store after \<open>RunForwardReasoning\<close> is the least model of the rules
  over the input. With the two facts \<open>(a sameAs x|y)\<close> and \<open>(x, y|sameAs, a)\<close> the
  symmetry rule concludes \<open>(x|y sameAs a)\<close>; its key is the key of the second fact, so
  \<open>Contains\<close> answers true, the rule proposes nothing, and the run returns zero with the
  store unchanged: the conclusion is in the least model and not in the store.
\<close>

theorem key_collision_loses_inference:
  "RunForwardReasoning (\<lambda>ks. ks)
     \<lparr>store = loadTriples NewTripleStore
         [\<lparr>Subject = ''a'', Predicate = OWLSameAs, Object = ''x|y''\<rparr>,
          \<lparr>Subject = ''x'', Predicate = ''y|'' @ OWLSameAs, Object = ''a''\<rparr>],
      rules = DefaultRules\<rparr>
     = Some (0, \<lparr>store = loadTriples NewTripleStore
         [\<lparr>Subject = ''a'', Predicate = OWLSameAs, Object = ''x|y''\<rparr>,
          \<lparr>Subject = ''x'', Predicate = ''y|'' @ OWLSameAs, Object = ''a''\<rparr>],
      rules = DefaultRules\<rparr>) \<and>
   All (loadTriples NewTripleStore
         [\<lparr>Subject = ''a'', Predicate = OWLSameAs, Object = ''x|y''\<rparr>,
          \<lparr>Subject = ''x'', Predicate = ''y|'' @ OWLSameAs, Object = ''a''\<rparr>])
     = [\<lparr>Subject = ''a'', Predicate = OWLSameAs, Object = ''x|y''\<rparr>,
        \<lparr>Subject = ''x'', Predicate = ''y|'' @ OWLSameAs, Object = ''a''\<rparr>] \<and>
   \<lparr>Subject = ''x|y'', Predicate = OWLSameAs, Object = ''a''\<rparr>
     \<in> least_model (set [\<lparr>Subject = ''a'', Predicate = OWLSameAs, Object = ''x|y''\<rparr>,
          \<lparr>Subject = ''x'', Predicate = ''y|'' @ OWLSameAs, Object = ''a''\<rparr>]) \<and>
   \<lparr>Subject = ''x|y'', Predicate = OWLSameAs, Object = ''a''\<rparr>
     \<notin> set [\<lparr>Subject = ''a'', Predicate = OWLSameAs, Object = ''x|y''\<rparr>,
          \<lparr>Subject = ''x'', Predicate = ''y|'' @ OWLSameAs, Object = ''a''\<rparr>]"
proof (intro conjI)
  let ?facts = "[\<lparr>Subject = ''a'', Predicate = OWLSameAs, Object = ''x|y''\<rparr>,
          \<lparr>Subject = ''x'', Predicate = ''y|'' @ OWLSameAs, Object = ''a''\<rparr>]"
  have q: "quiet DefaultRules (loadTriples NewTripleStore ?facts)"
    by (rule collision_quiet[OF wf_loaded collision_store])
  show "RunForwardReasoning (\<lambda>ks. ks)
          \<lparr>store = loadTriples NewTripleStore ?facts, rules = DefaultRules\<rparr>
        = Some (0, \<lparr>store = loadTriples NewTripleStore ?facts, rules = DefaultRules\<rparr>)"
    unfolding RunForwardReasoning_def
    using quiet_loop[OF mapOrder_ok_id wf_loaded q, of 0] by simp
  show "All (loadTriples NewTripleStore ?facts) = ?facts"
    unfolding All_def by (rule collision_store)
  show "\<lparr>Subject = ''x|y'', Predicate = OWLSameAs, Object = ''a''\<rparr> \<in> least_model (set ?facts)"
    by (rule least_model.sameAs_symmetry) (rule least_model.input, simp)
  show "\<lparr>Subject = ''x|y'', Predicate = OWLSameAs, Object = ''a''\<rparr> \<notin> set ?facts"
    by simp
qed

section \<open>Termination and the fixed point\<close>

text \<open>
  C2, as the code has it. From any store built by \<open>Add\<close> and with any list of the
  thirteen rules, \<open>RunForwardReasoning\<close> returns. The terms of a proposed triple are terms
  of the store or the IRI \<open>rdf:type\<close>, so the terms of the final store are those of the
  input and \<open>rdf:type\<close>; and the round applied to the final store adds nothing.
\<close>

theorem RunForwardReasoning_terminates:
  assumes "mapOrder_ok ord"
  shows "\<exists>n r'. RunForwardReasoning ord \<lparr>store = loadTriples NewTripleStore facts, rules = rs\<rparr>
                   = Some (n, r') \<and>
           termsOf (set (All (store r')))
             \<subseteq> insert RDFType (termsOf (set (All (loadTriples NewTripleStore facts)))) \<and>
           applyRules ord rs (store r') 0 = Some (store r', 0) \<and>
           (\<forall>r xs. Apply ord r (loadTriples NewTripleStore facts) = Some xs \<longrightarrow>
              termsOf (set xs)
                \<subseteq> insert RDFType (termsOf (set (All (loadTriples NewTripleStore facts)))))"
proof -
  let ?ts = "loadTriples NewTripleStore facts"
  from reasoningLoop_from[OF assms wf_loaded, of rs facts 0] obtain ts' news where
    h: "reasoningLoop ord rs ?ts 0 = Some (0 + length news, ts')" "wf_store ts'"
       "tripleList ts' = tripleList ?ts @ news"
       "termsOf (set (tripleList ts')) \<subseteq> insert RDFType (termsOf (set (tripleList ?ts)))"
       "quiet rs ts'"
    by blast
  have 1: "RunForwardReasoning ord \<lparr>store = ?ts, rules = rs\<rparr>
             = Some (length news, \<lparr>store = ts', rules = rs\<rparr>)"
    using h(1) by (simp add: RunForwardReasoning_def)
  have 2: "applyRules ord rs ts' 0 = Some (ts', 0)"
    using quiet_round[OF assms h(2) h(5)] .
  have 3: "\<forall>r xs. Apply ord r ?ts = Some xs \<longrightarrow>
              termsOf (set xs) \<subseteq> insert RDFType (termsOf (set (All ?ts)))"
    using proposals_terms[OF assms wf_loaded] by (simp add: All_def)
  show ?thesis using 1 2 3 h(4) by (simp add: All_def)
qed

theorem RunForwardReasoning_terminates_witness:
  "mapOrder_ok (\<lambda>ks. ks) \<and>
   (\<exists>n r'. RunForwardReasoning (\<lambda>ks. ks)
        \<lparr>store = loadTriples NewTripleStore
            [\<lparr>Subject = ''p'', Predicate = RDFSDomain, Object = ''C''\<rparr>,
             \<lparr>Subject = ''x'', Predicate = ''p'', Object = ''y''\<rparr>],
         rules = DefaultRules\<rparr> = Some (n, r'))"
  using RunForwardReasoning_terminates[OF mapOrder_ok_id,
      of "[\<lparr>Subject = ''p'', Predicate = RDFSDomain, Object = ''C''\<rparr>,
           \<lparr>Subject = ''x'', Predicate = ''p'', Object = ''y''\<rparr>]" DefaultRules]
        mapOrder_ok_id
  by blast

theorem DomainInference_proposes_rdf_type:
  "DomainInference_Apply (loadTriples NewTripleStore
       [\<lparr>Subject = ''p'', Predicate = RDFSDomain, Object = ''C''\<rparr>,
        \<lparr>Subject = ''x'', Predicate = ''p'', Object = ''y''\<rparr>])
     = Some [\<lparr>Subject = ''x'', Predicate = RDFType, Object = ''C''\<rparr>]
   \<and> RDFType \<notin> termsOf (set (All (loadTriples NewTripleStore
       [\<lparr>Subject = ''p'', Predicate = RDFSDomain, Object = ''C''\<rparr>,
        \<lparr>Subject = ''x'', Predicate = ''p'', Object = ''y''\<rparr>])))"
proof
  show "DomainInference_Apply (loadTriples NewTripleStore
       [\<lparr>Subject = ''p'', Predicate = RDFSDomain, Object = ''C''\<rparr>,
        \<lparr>Subject = ''x'', Predicate = ''p'', Object = ''y''\<rparr>])
     = Some [\<lparr>Subject = ''x'', Predicate = RDFType, Object = ''C''\<rparr>]"
    by (rule domain_eval[OF wf_loaded domain_store])
  show "RDFType \<notin> termsOf (set (All (loadTriples NewTripleStore
       [\<lparr>Subject = ''p'', Predicate = RDFSDomain, Object = ''C''\<rparr>,
        \<lparr>Subject = ''x'', Predicate = ''p'', Object = ''y''\<rparr>])))"
    unfolding All_def domain_store by (simp add: termsOf_def iri_defs)
qed

text \<open>
  C4. After \<open>RunForwardReasoning\<close> has returned, one more round of all the rules adds
  nothing and leaves the store as it is, and a second call returns zero. The order in
  which the second pass visits the map keys (\<open>ord'\<close>) need not be that of the first.
\<close>

theorem RunForwardReasoning_idempotent:
  assumes "mapOrder_ok ord" and "mapOrder_ok ord'"
  shows "\<exists>n r'. RunForwardReasoning ord \<lparr>store = loadTriples NewTripleStore facts, rules = rs\<rparr>
                   = Some (n, r') \<and>
           applyRules ord' (rules r') (store r') 0 = Some (store r', 0) \<and>
           RunForwardReasoning ord' r' = Some (0, r')"
proof -
  let ?ts = "loadTriples NewTripleStore facts"
  from reasoningLoop_from[OF assms(1) wf_loaded, of rs facts 0] obtain ts' news where
    h: "reasoningLoop ord rs ?ts 0 = Some (0 + length news, ts')" "wf_store ts'"
       "tripleList ts' = tripleList ?ts @ news"
       "termsOf (set (tripleList ts')) \<subseteq> insert RDFType (termsOf (set (tripleList ?ts)))"
       "quiet rs ts'"
    by blast
  let ?r' = "\<lparr>store = ts', rules = rs\<rparr>"
  have 1: "RunForwardReasoning ord \<lparr>store = ?ts, rules = rs\<rparr> = Some (length news, ?r')"
    using h(1) by (simp add: RunForwardReasoning_def)
  have 2: "applyRules ord' (rules ?r') (store ?r') 0 = Some (store ?r', 0)"
    using quiet_round[OF assms(2) h(2) h(5), of 0] by simp
  have 3: "RunForwardReasoning ord' ?r' = Some (0, ?r')"
    using quiet_loop[OF assms(2) h(2) h(5), of 0] by (simp add: RunForwardReasoning_def)
  show ?thesis using 1 2 3 by blast
qed

theorem RunForwardReasoning_idempotent_witness:
  "mapOrder_ok (\<lambda>ks. ks) \<and> mapOrder_ok rev \<and>
   (\<exists>n r'. RunForwardReasoning (\<lambda>ks. ks)
        \<lparr>store = loadTriples NewTripleStore
            [\<lparr>Subject = ''a'', Predicate = RDFSSubClassOf, Object = ''b''\<rparr>,
             \<lparr>Subject = ''b'', Predicate = RDFSSubClassOf, Object = ''c''\<rparr>],
         rules = DefaultRules\<rparr> = Some (n, r') \<and>
      applyRules rev (rules r') (store r') 0 = Some (store r', 0) \<and>
      RunForwardReasoning rev r' = Some (0, r'))"
  using RunForwardReasoning_idempotent[OF mapOrder_ok_id mapOrder_ok_rev,
      of "[\<lparr>Subject = ''a'', Predicate = RDFSSubClassOf, Object = ''b''\<rparr>,
           \<lparr>Subject = ''b'', Predicate = RDFSSubClassOf, Object = ''c''\<rparr>]" DefaultRules]
        mapOrder_ok_id mapOrder_ok_rev
  by blast

section \<open>The range rule\<close>

lemma range_literal_store:
  "tripleList (loadTriples NewTripleStore
       [\<lparr>Subject = ''p'', Predicate = RDFSRange, Object = [CHR 0x22, CHR ''l'', CHR 0x22]\<rparr>,
        \<lparr>Subject = ''x'', Predicate = ''p'', Object = ''y''\<rparr>])
   = [\<lparr>Subject = ''p'', Predicate = RDFSRange, Object = [CHR 0x22, CHR ''l'', CHR 0x22]\<rparr>,
      \<lparr>Subject = ''x'', Predicate = ''p'', Object = ''y''\<rparr>]"
  by (simp add: store_eval)

lemma range_literal_eval:
  assumes "wf_store ts"
    and "tripleList ts =
          [\<lparr>Subject = ''p'', Predicate = RDFSRange, Object = [CHR 0x22, CHR ''l'', CHR 0x22]\<rparr>,
           \<lparr>Subject = ''x'', Predicate = ''p'', Object = ''y''\<rparr>]"
  shows "RangeInference_Apply ts =
           Some [\<lparr>Subject = ''y'', Predicate = RDFType, Object = [CHR 0x22, CHR ''l'', CHR 0x22]\<rparr>]"
  using assms
  by (simp add: RangeInference_Apply_def wf_Find wf_Contains forEach_Some tripleKey_def iri_defs)

theorem RangeInference_literal_object:
  "RangeInference_Apply (loadTriples NewTripleStore
       [\<lparr>Subject = ''p'', Predicate = RDFSRange, Object = [CHR 0x22, CHR ''l'', CHR 0x22]\<rparr>,
        \<lparr>Subject = ''x'', Predicate = ''p'', Object = ''y''\<rparr>])
     = Some [\<lparr>Subject = ''y'', Predicate = RDFType, Object = [CHR 0x22, CHR ''l'', CHR 0x22]\<rparr>]
   \<and> Object \<lparr>Subject = ''y'', Predicate = RDFType, Object = [CHR 0x22, CHR ''l'', CHR 0x22]\<rparr> ! 0
       = CHR 0x22"
  using range_literal_eval[OF wf_loaded range_literal_store] by simp

text \<open>
  C5, as the code has it. The literal test is on \<open>Y\<close>, which becomes the subject of the
  proposed triple: the range rule proposes exactly the triples \<open>(Y type C)\<close> with
  \<open>(P range C)\<close> and \<open>(X P Y)\<close> in the store, \<open>Y\<close> not a literal, that the store does not
  hold yet; so no proposed triple has a subject whose first character is the double quote.
\<close>

theorem RangeInference_no_literal_subject:
  "\<exists>xs. RangeInference_Apply (loadTriples NewTripleStore facts) = Some xs \<and>
        (\<forall>t\<in>set xs. \<not> isLiteral (Subject t)) \<and>
        set xs =
          {\<lparr>Subject = Object t, Predicate = RDFType, Object = Object rt\<rparr> | rt t.
             rt \<in> set (All (loadTriples NewTripleStore facts)) \<and>
             t \<in> set (All (loadTriples NewTripleStore facts)) \<and>
             Predicate rt = RDFSRange \<and> Predicate t = Subject rt \<and>
             \<not> isLiteral (Object t) \<and>
             \<not> Contains (loadTriples NewTripleStore facts)
                 \<lparr>Subject = Object t, Predicate = RDFType, Object = Object rt\<rparr>}"
proof -
  let ?ts = "loadTriples NewTripleStore facts"
  from Apply_RangeInference[OF wf_loaded, of facts] obtain xs where
    x: "RangeInference_Apply ?ts = Some xs"
       "set xs = {t \<in> derive RangeInference (set (tripleList ?ts)). \<not> Contains ?ts t}"
    by blast
  have a: "\<forall>t\<in>set xs. \<not> isLiteral (Subject t)" unfolding x(2) by auto
  have b: "set xs =
          {\<lparr>Subject = Object t, Predicate = RDFType, Object = Object rt\<rparr> | rt t.
             rt \<in> set (All ?ts) \<and> t \<in> set (All ?ts) \<and>
             Predicate rt = RDFSRange \<and> Predicate t = Subject rt \<and>
             \<not> isLiteral (Object t) \<and>
             \<not> Contains ?ts \<lparr>Subject = Object t, Predicate = RDFType, Object = Object rt\<rparr>}"
    unfolding x(2) by (auto simp: All_def)
  show ?thesis using x(1) a b by blast
qed

lemma range_mixed_store:
  "tripleList (loadTriples NewTripleStore
       [\<lparr>Subject = ''p'', Predicate = RDFSRange, Object = ''C''\<rparr>,
        \<lparr>Subject = ''x'', Predicate = ''p'', Object = ''y''\<rparr>,
        \<lparr>Subject = ''x'', Predicate = ''p'', Object = [CHR 0x22, CHR ''l'', CHR 0x22]\<rparr>])
   = [\<lparr>Subject = ''p'', Predicate = RDFSRange, Object = ''C''\<rparr>,
      \<lparr>Subject = ''x'', Predicate = ''p'', Object = ''y''\<rparr>,
      \<lparr>Subject = ''x'', Predicate = ''p'', Object = [CHR 0x22, CHR ''l'', CHR 0x22]\<rparr>]"
  by (simp add: store_eval)

lemma range_mixed_eval:
  assumes "wf_store ts"
    and "tripleList ts =
          [\<lparr>Subject = ''p'', Predicate = RDFSRange, Object = ''C''\<rparr>,
           \<lparr>Subject = ''x'', Predicate = ''p'', Object = ''y''\<rparr>,
           \<lparr>Subject = ''x'', Predicate = ''p'', Object = [CHR 0x22, CHR ''l'', CHR 0x22]\<rparr>]"
  shows "RangeInference_Apply ts = Some [\<lparr>Subject = ''y'', Predicate = RDFType, Object = ''C''\<rparr>]"
  using assms
  by (simp add: RangeInference_Apply_def wf_Find wf_Contains forEach_Some tripleKey_def iri_defs)

theorem RangeInference_no_literal_subject_witness:
  "RangeInference_Apply (loadTriples NewTripleStore
       [\<lparr>Subject = ''p'', Predicate = RDFSRange, Object = ''C''\<rparr>,
        \<lparr>Subject = ''x'', Predicate = ''p'', Object = ''y''\<rparr>,
        \<lparr>Subject = ''x'', Predicate = ''p'', Object = [CHR 0x22, CHR ''l'', CHR 0x22]\<rparr>])
     = Some [\<lparr>Subject = ''y'', Predicate = RDFType, Object = ''C''\<rparr>]
   \<and> \<not> isLiteral ''y''"
  using RangeInference_no_literal_subject[of
       "[\<lparr>Subject = ''p'', Predicate = RDFSRange, Object = ''C''\<rparr>,
        \<lparr>Subject = ''x'', Predicate = ''p'', Object = ''y''\<rparr>,
        \<lparr>Subject = ''x'', Predicate = ''p'', Object = [CHR 0x22, CHR ''l'', CHR 0x22]\<rparr>]"]
    range_mixed_eval[OF wf_loaded range_mixed_store]
  by auto

section \<open>Errors of the Turtle parser\<close>











































lemma parse_base_prefix_document:
  "Parse ''@prefix base: <http://e/> . base:x a base:T .'' = Inl ExpectedOpenAngle"
  by code_simp

text \<open>
  C9. The claim: \<open>LoadTurtle\<close> fails only on a malformed \<open>@prefix\<close> or \<open>@base\<close>
  declaration. \<open>Parse\<close> takes every statement that starts with the letters of \<open>BASE\<close> or
  \<open>PREFIX\<close>, in any case, for a declaration, without looking at what follows them. A
  document that declares the prefix \<open>base:\<close> and uses it as the subject of a triple has no
  malformed declaration, and \<open>LoadTurtle\<close> fails on it.
\<close>

theorem prefix_named_base_fails:
  "LoadTurtle NewReasoner ''@prefix base: <http://e/> . base:x a base:T .''
     = Inl (FailedToParseTurtle ExpectedOpenAngle)"
  by (simp add: LoadTurtle_def parse_base_prefix_document)

section \<open>The counts of \<open>ForwardReasonWithDetails\<close>\<close>

text \<open>
  C10. \<open>ForwardReasonWithDetails\<close> returns. When it returns a result, the result's
  \<open>OriginalCount\<close> is the size of the store after loading, its \<open>InferredCount\<close> the
  number \<open>RunForwardReasoning\<close> returned, its \<open>TotalCount\<close> the size of the store after
  reasoning, and the first two add up to the third.
\<close>

theorem ForwardReasonWithDetails_counts:
  assumes "mapOrder_ok ord"
  shows "\<exists>out. ForwardReasonWithDetails ord abox tbox = Some out \<and>
           (\<forall>res. out = Inr res \<longrightarrow>
              (\<exists>r1 r2 n r3.
                 (if tbox \<noteq> [] then LoadTurtle NewReasoner tbox else Inr NewReasoner) = Inr r1 \<and>
                 (if abox \<noteq> [] then LoadTurtle r1 abox else Inr r1) = Inr r2 \<and>
                 RunForwardReasoning ord r2 = Some (n, r3) \<and>
                 OriginalCount res = Size (store r2) \<and>
                 InferredCount res = n \<and>
                 TotalCount res = Size (store r3) \<and>
                 OriginalCount res + InferredCount res = TotalCount res))"
proof (cases "if tbox \<noteq> [] then LoadTurtle NewReasoner tbox else Inr NewReasoner")
  case (Inl err)
  then show ?thesis by (simp add: ForwardReasonWithDetails_def)
next
  case (Inr r1)
  note l1 = Inr
  have w0: "wf_store (store NewReasoner)" by (simp add: NewReasoner_def wf_NewTripleStore)
  have w1: "wf_store (store r1)"
    using l1 w0 LoadTurtle_wf[of NewReasoner tbox r1] by (auto split: if_splits)
  show ?thesis
  proof (cases "if abox \<noteq> [] then LoadTurtle r1 abox else Inr r1")
    case (Inl err)
    then show ?thesis using l1 by (simp add: ForwardReasonWithDetails_def)
  next
    case (Inr r2)
    note l2 = Inr
    have w2: "wf_store (store r2)"
      using l2 w1 LoadTurtle_wf[of r1 abox r2] by (auto split: if_splits)
    from wf_run[OF assms w2] obtain n r3 where
      run: "RunForwardReasoning ord r2 = Some (n, r3)" "Size (store r2) + n = Size (store r3)"
      by blast
    show ?thesis using l1 l2 run
      by (simp add: ForwardReasonWithDetails_def Let_def length_GetAllTriples)
  qed
qed

lemma parse_tbox_example:
  "Parse ''<p> <http://www.w3.org/2000/01/rdf-schema#domain> <C> .''
     = Inr [\<lparr>Subject = ''p'', Predicate = RDFSDomain, Object = ''C''\<rparr>]"
  by code_simp

lemma parse_abox_example:
  "Parse ''<x> <p> <y> .'' = Inr [\<lparr>Subject = ''x'', Predicate = ''p'', Object = ''y''\<rparr>]"
  by code_simp

theorem ForwardReasonWithDetails_counts_witness:
  "mapOrder_ok (\<lambda>ks. ks) \<and>
   (\<exists>res. ForwardReasonWithDetails (\<lambda>ks. ks) ''<x> <p> <y> .''
              ''<p> <http://www.w3.org/2000/01/rdf-schema#domain> <C> .'' = Some (Inr res) \<and>
           OriginalCount res + InferredCount res = TotalCount res)"
proof -
  let ?abox = "''<x> <p> <y> .''"
  let ?tbox = "''<p> <http://www.w3.org/2000/01/rdf-schema#domain> <C> .''"
  from ForwardReasonWithDetails_counts[OF mapOrder_ok_id, of ?abox ?tbox] obtain out where
    o: "ForwardReasonWithDetails (\<lambda>ks. ks) ?abox ?tbox = Some out"
       "\<forall>res. out = Inr res \<longrightarrow> OriginalCount res + InferredCount res = TotalCount res"
    by blast
  have "\<exists>res. out = Inr res"
    using o(1) parse_tbox_example parse_abox_example
    by (auto simp: ForwardReasonWithDetails_def LoadTurtle_def Let_def split: option.splits)
  then show ?thesis using o mapOrder_ok_id by blast
qed

end
